theory Spec2Isabelle
  imports
    Main
    "HOL-Library.Multiset"
    "HOL-Library.Option_ord"
    "HOL-Library.Char_ord"
    "HOL-Library.List_Lexorder"
    "HOL-Library.Product_Lexorder"
begin

section \<open>bwalign: a shallow embedding of \<^verbatim>\<open>src/bwalign/utils.py\<close>\<close>

text \<open>
  Python strings are modelled as \<^typ>\<open>string\<close> (lists of \<^typ>\<open>char\<close>). The index
  code of the program counts characters in tables of 256 entries
  (\<^verbatim>\<open>counts = [0 for _ in range(256)]\<close>), so the characters it is run on are bytes, which
  is what \<^typ>\<open>char\<close> holds. Python integers are unbounded: counters that only count upwards
  from zero are \<^typ>\<open>nat\<close>, every other integer is \<^typ>\<open>int\<close>.
\<close>

subsection \<open>Exceptions\<close>

text \<open>
  The exceptions the modelled functions can raise. A function that can raise returns a
  value of the sum type \<open>py_error + 'a\<close>, with \<open>Inl\<close> for the exception. \<open>fold_err\<close> is a
  \<^verbatim>\<open>for\<close> loop whose body can raise: the first exception ends the loop.
\<close>

datatype py_error = IndexError | KeyError | ZeroDivisionError | OverflowError | RecursionError

fun fold_err :: "('a \<Rightarrow> 's \<Rightarrow> py_error + 's) \<Rightarrow> 'a list \<Rightarrow> 's \<Rightarrow> py_error + 's" where
  "fold_err f [] st = Inr st"
| "fold_err f (x # xs) st =
     (case f x st of
        Inl e \<Rightarrow> Inl e
      | Inr st' \<Rightarrow> fold_err f xs st')"

subsection \<open>CIGAR strings: \<^verbatim>\<open>calculate_cigar\<close>\<close>

text \<open>
  \<^verbatim>\<open>f"{match}M"\<close> prints a non-negative counter in decimal and appends the operation
  letter. \<open>str_nat\<close> is Python's \<^verbatim>\<open>str\<close> on a non-negative integer.
\<close>

definition digit_char :: "nat \<Rightarrow> char" where
  "digit_char d = char_of (48 + d)"

function str_nat :: "nat \<Rightarrow> string" where
  "str_nat n = (if n < 10 then [digit_char n] else str_nat (n div 10) @ [digit_char (n mod 10)])"
  by pat_completeness auto
termination
  by (relation "measure (\<lambda>n. n)") auto

declare str_nat.simps [simp del]

text \<open>
  The list \<^verbatim>\<open>cigar\<close> of the source holds one formatted string per run. The model keeps
  each entry as the pair (run length, operation letter) it was formatted from;
  \<open>format_run\<close> is the f-string and \<open>join_runs\<close> is \<^verbatim>\<open>''.join(cigar)\<close>.
\<close>

type_synonym run = "nat \<times> char"

definition format_run :: "run \<Rightarrow> string" where
  "format_run r = str_nat (fst r) @ [snd r]"

definition join_runs :: "run list \<Rightarrow> string" where
  "join_runs rs = concat (map format_run rs)"

text \<open>
  The state of the loop is \<^verbatim>\<open>(cigar, match, ins, del_)\<close>. One step is one iteration of
  \<^verbatim>\<open>for s, t in zip(alignment_s, alignment_t)\<close>, with the three branches in the order of
  the source.
\<close>

type_synonym cigar_state = "run list \<times> nat \<times> nat \<times> nat"

fun cigar_step :: "cigar_state \<Rightarrow> char \<times> char \<Rightarrow> cigar_state" where
  "cigar_step (cigar, match, ins, del) (s, t) =
     (if s = CHR ''-'' \<and> t \<noteq> CHR ''-'' then
        (if match > 0 then (cigar @ [(match, CHR ''M'')], 0, ins, del + 1)
         else (cigar, match, ins, del + 1))
      else if s \<noteq> CHR ''-'' \<and> t = CHR ''-'' then
        (if match > 0 then (cigar @ [(match, CHR ''M'')], 0, ins + 1, del)
         else (cigar, match, ins + 1, del))
      else
        (let cigar1 = (if ins > 0 then cigar @ [(ins, CHR ''I'')] else cigar);
             cigar2 = (if del > 0 then cigar1 @ [(del, CHR ''D'')] else cigar1)
         in (cigar2, match + 1, 0, 0)))"

fun cigar_loop :: "cigar_state \<Rightarrow> (char \<times> char) list \<Rightarrow> cigar_state" where
  "cigar_loop st [] = st"
| "cigar_loop st (col # cols) = cigar_loop (cigar_step st col) cols"

text \<open>The three flushes after the loop, in the order M, I, D.\<close>

fun cigar_flush :: "cigar_state \<Rightarrow> run list" where
  "cigar_flush (cigar, match, ins, del) =
     (let cigar1 = (if match > 0 then cigar @ [(match, CHR ''M'')] else cigar);
          cigar2 = (if ins > 0 then cigar1 @ [(ins, CHR ''I'')] else cigar1);
          cigar3 = (if del > 0 then cigar2 @ [(del, CHR ''D'')] else cigar2)
      in cigar3)"

definition cigar_runs :: "string \<Rightarrow> string \<Rightarrow> run list" where
  "cigar_runs alignment_s alignment_t =
     cigar_flush (cigar_loop ([], 0, 0, 0) (zip alignment_s alignment_t))"

definition calculate_cigar :: "string \<Rightarrow> string \<Rightarrow> string" where
  "calculate_cigar alignment_s alignment_t = join_runs (cigar_runs alignment_s alignment_t)"

text \<open>Sum of the run lengths of the runs whose operation letter is in a given set.\<close>

definition run_total :: "char set \<Rightarrow> run list \<Rightarrow> nat" where
  "run_total ops rs = sum_list (map fst (filter (\<lambda>r. snd r \<in> ops) rs))"

definition strip_gaps :: "string \<Rightarrow> string" where
  "strip_gaps a = filter (\<lambda>c. c \<noteq> CHR ''-'') a"

subsection \<open>Double-precision numbers\<close>

text \<open>
  \<^verbatim>\<open>banded_alignment\<close> keeps its scores in a \<^verbatim>\<open>numpy\<close> matrix of \<^verbatim>\<open>float64\<close>. Every
  value that occurs there is minus infinity, plus infinity, or a double whose value is an
  integer, so a double is modelled by \<open>NegInf\<close>, \<open>PosInf\<close> or \<open>Fin v\<close> with the integer
  \<open>v\<close> it holds. \<open>bit_length n\<close> is the number of binary digits of a positive \<open>n\<close>,
  and \<open>round_f64\<close> rounds an integer to the nearest integer with a
  significand of 53 bits, ties to the even significand (the rounding of IEEE 754 and of
  Python's conversion of an \<^verbatim>\<open>int\<close> to a \<^verbatim>\<open>float\<close>).
\<close>

function bit_length :: "int \<Rightarrow> nat" where
  "bit_length n = (if n \<le> 0 then 0 else Suc (bit_length (n div 2)))"
  by pat_completeness auto
termination
  by (relation "measure nat") auto

declare bit_length.simps [simp del]

definition round_f64 :: "int \<Rightarrow> int" where
  "round_f64 v =
     (let a = \<bar>v\<bar>
      in if bit_length a \<le> 53 then v
         else
           (let e = bit_length a - 53;
                q = a div 2 ^ e;
                r = a mod 2 ^ e;
                q' = (if 2 ^ (e - 1) < r \<or> (r = 2 ^ (e - 1) \<and> odd q) then q + 1 else q)
            in sgn v * (q' * 2 ^ e)))"

datatype f64 = NegInf | Fin int | PosInf

text \<open>
  The conversion of a Python integer to a double raises \<^verbatim>\<open>OverflowError\<close> when the
  rounded value is not below \<open>2^1024\<close>. The sum of two doubles is rounded, and overflows
  to an infinity without an exception. \<open>f64_add_fin x d\<close> adds the finite double \<open>d\<close>.
\<close>

definition float_of_int :: "int \<Rightarrow> py_error + int" where
  "float_of_int v = (if \<bar>round_f64 v\<bar> < 2 ^ 1024 then Inr (round_f64 v) else Inl OverflowError)"

definition f64_result :: "int \<Rightarrow> f64" where
  "f64_result v =
     (let w = round_f64 v
      in if 2 ^ 1024 \<le> w then PosInf else if w \<le> - (2 ^ 1024) then NegInf else Fin w)"

fun f64_add_fin :: "f64 \<Rightarrow> int \<Rightarrow> f64" where
  "f64_add_fin NegInf d = NegInf"
| "f64_add_fin PosInf d = PosInf"
| "f64_add_fin (Fin a) d = f64_result (a + d)"

fun f64_less :: "f64 \<Rightarrow> f64 \<Rightarrow> bool" where
  "f64_less NegInf NegInf = False"
| "f64_less NegInf (Fin b) = True"
| "f64_less NegInf PosInf = True"
| "f64_less (Fin a) NegInf = False"
| "f64_less (Fin a) (Fin b) = (a < b)"
| "f64_less (Fin a) PosInf = True"
| "f64_less PosInf y = False"

text \<open>\<^verbatim>\<open>max(a, b, c)\<close> keeps the first of the largest arguments.\<close>

definition f64_max3 :: "f64 \<Rightarrow> f64 \<Rightarrow> f64 \<Rightarrow> f64" where
  "f64_max3 a b c = (let m = (if f64_less a b then b else a) in if f64_less m c then c else m)"

subsection \<open>Banded alignment: \<^verbatim>\<open>banded_alignment\<close>\<close>

text \<open>
  The matrix \<^verbatim>\<open>l\<close> is a store from index pairs to doubles, created full of minus
  infinity. All reads and writes of the loops are inside the allocated
  \<open>(len(s)+1) \<times> (len(t)+1)\<close> range, and \<^verbatim>\<open>s[i-1]\<close>, \<^verbatim>\<open>t[j-1]\<close> are read with
  \<open>1 \<le> i \<le> len(s)\<close>, \<open>1 \<le> j \<le> len(t)\<close> only. The products \<^verbatim>\<open>j * (-indp)\<close> are
  Python integers, converted when they are stored; in \<^verbatim>\<open>l[i-1][j] - indp\<close> and
  \<^verbatim>\<open>l[i-1][j-1] + match\<close> the integer operand is converted and the operation is one of
  doubles.
\<close>

type_synonym fmatrix = "nat \<times> nat \<Rightarrow> f64"

definition ba_cell ::
  "int \<Rightarrow> int \<Rightarrow> int \<Rightarrow> int \<Rightarrow> string \<Rightarrow> string \<Rightarrow> nat \<Rightarrow> nat \<Rightarrow> fmatrix \<Rightarrow> py_error + fmatrix" where
  "ba_cell mr mmp indp bp s t i j l =
     (if i = 0 \<and> j = 0 then Inr (l((i, j) := Fin 0))
      else if \<bar>int j - int i\<bar> < bp then
        (if i = 0 then
           (case float_of_int (int j * (- indp)) of
              Inl e \<Rightarrow> Inl e
            | Inr v \<Rightarrow> Inr (l((i, j) := Fin v)))
         else if j = 0 then
           (case float_of_int (int i * (- indp)) of
              Inl e \<Rightarrow> Inl e
            | Inr v \<Rightarrow> Inr (l((i, j) := Fin v)))
         else
           (let match = (if s ! (i - 1) = t ! (j - 1) then mr else - mmp)
            in case float_of_int indp of
                 Inl e \<Rightarrow> Inl e
               | Inr d \<Rightarrow>
                   (case float_of_int match of
                      Inl e \<Rightarrow> Inl e
                    | Inr m \<Rightarrow>
                        Inr (l((i, j) := f64_max3 (f64_add_fin (l (i - 1, j)) (- d))
                                                  (f64_add_fin (l (i, j - 1)) (- d))
                                                  (f64_add_fin (l (i - 1, j - 1)) m))))))
      else Inr l)"

definition ba_fill ::
  "int \<Rightarrow> int \<Rightarrow> int \<Rightarrow> int \<Rightarrow> string \<Rightarrow> string \<Rightarrow> py_error + fmatrix" where
  "ba_fill mr mmp indp bp s t =
     fold_err (\<lambda>i. fold_err (ba_cell mr mmp indp bp s t i) [0..<length t + 1])
       [0..<length s + 1] (\<lambda>_. NegInf)"

text \<open>
  The result is an integer or \<^verbatim>\<open>float('-inf')\<close>: the type \<^typ>\<open>int option\<close> with \<open>None\<close>
  for minus infinity. \<^verbatim>\<open>int(score)\<close> of plus infinity raises \<^verbatim>\<open>OverflowError\<close>.
\<close>

type_synonym score = "int option"

definition banded_alignment ::
  "int \<Rightarrow> int \<Rightarrow> int \<Rightarrow> int \<Rightarrow> string \<Rightarrow> string \<Rightarrow> py_error + score" where
  "banded_alignment mr mmp indp bp s t =
     (case ba_fill mr mmp indp bp s t of
        Inl e \<Rightarrow> Inl e
      | Inr l \<Rightarrow>
          (case l (length s, length t) of
             NegInf \<Rightarrow> Inr None
           | Fin v \<Rightarrow> Inr (Some v)
           | PosInf \<Rightarrow> Inl OverflowError))"

subsection \<open>Banded alignment with backtrace: \<^verbatim>\<open>BandedAlignmentWithBackTrack\<close>\<close>

text \<open>
  Here the matrix \<^verbatim>\<open>l\<close> is a list of lists holding Python integers and
  \<^verbatim>\<open>float('-inf')\<close>: a cell is an \<^typ>\<open>int option\<close> with \<open>None\<close> for minus infinity, and the
  order of \<^verbatim>\<open>HOL-Library.Option_ord\<close> puts \<open>None\<close> below every \<open>Some v\<close>, as Python
  compares \<^verbatim>\<open>-inf\<close> with an integer. Integer arithmetic is exact. Adding an integer to
  minus infinity converts the integer to a double first, which can raise
  \<^verbatim>\<open>OverflowError\<close>, and gives minus infinity.
\<close>

definition score_add :: "score \<Rightarrow> int \<Rightarrow> py_error + score" where
  "score_add x d =
     (case x of
        Some v \<Rightarrow> Inr (Some (v + d))
      | None \<Rightarrow> (case float_of_int d of Inl e \<Rightarrow> Inl e | Inr _ \<Rightarrow> Inr None))"

definition max3 :: "score \<Rightarrow> score \<Rightarrow> score \<Rightarrow> score" where
  "max3 a b c = max (max a b) c"

text \<open>
  The backtrack matrix \<^verbatim>\<open>b\<close> holds \<^verbatim>\<open>None\<close> or one of the strings \<^verbatim>\<open>'d'\<close>,
  \<^verbatim>\<open>'r'\<close>, \<^verbatim>\<open>'dr'\<close>. In this function the border cells are written whether or not
  they are inside the band, and the test for the band comes after them. The three
  comparisons that choose the pointer evaluate the same three expressions as the
  arguments of \<^verbatim>\<open>max\<close>; the model names their values \<open>up\<close>, \<open>left\<close> and \<open>diag\<close>.
\<close>

type_synonym matrix = "nat \<times> nat \<Rightarrow> score"

type_synonym ptr_matrix = "nat \<times> nat \<Rightarrow> string option"

definition bt_cell ::
  "int \<Rightarrow> int \<Rightarrow> int \<Rightarrow> int \<Rightarrow> string \<Rightarrow> string \<Rightarrow> nat \<Rightarrow> nat
     \<Rightarrow> matrix \<times> ptr_matrix \<Rightarrow> py_error + matrix \<times> ptr_matrix" where
  "bt_cell match_reward mismatch_penalty indel_penalty band_parameter s t i j lb =
     (let l = fst lb; b = snd lb;
          l0 = (if i = 0 \<and> j = 0 then l((i, j) := Some 0) else l)
      in if i = 0 then Inr (l0((i, j) := Some (int j * (- indel_penalty))), b)
         else if j = 0 then Inr (l0((i, j) := Some (int i * (- indel_penalty))), b)
         else if \<bar>int j - int i\<bar> < band_parameter then
           (let match = (if s ! (i - 1) = t ! (j - 1) then match_reward else - mismatch_penalty)
            in case score_add (l0 (i - 1, j)) (- indel_penalty) of
                 Inl e \<Rightarrow> Inl e
               | Inr up \<Rightarrow>
                   (case score_add (l0 (i, j - 1)) (- indel_penalty) of
                      Inl e \<Rightarrow> Inl e
                    | Inr left \<Rightarrow>
                        (case score_add (l0 (i - 1, j - 1)) match of
                           Inl e \<Rightarrow> Inl e
                         | Inr diag \<Rightarrow>
                             (let l1 = l0((i, j) := max3 up left diag);
                                  b1 = (if l1 (i, j) = up then b((i - 1, j - 1) := Some ''d'')
                                        else if l1 (i, j) = left then b((i - 1, j - 1) := Some ''r'')
                                        else if l1 (i, j) = diag then b((i - 1, j - 1) := Some ''dr'')
                                        else b)
                              in Inr (l1, b1)))))
         else Inr (l0, b))"

definition bt_fill ::
  "int \<Rightarrow> int \<Rightarrow> int \<Rightarrow> int \<Rightarrow> string \<Rightarrow> string \<Rightarrow> py_error + matrix \<times> ptr_matrix" where
  "bt_fill match_reward mismatch_penalty indel_penalty band_parameter s t =
     fold_err (\<lambda>i. fold_err (bt_cell match_reward mismatch_penalty indel_penalty band_parameter s t i)
                 [0..<length t + 1])
       [0..<length s + 1] (\<lambda>_. None, \<lambda>_. None)"

text \<open>
  \<^verbatim>\<open>backtrack\<close> recurses on the integers \<open>i\<close>, \<open>j\<close>, which run down to \<open>-1\<close>. It is
  entered with \<open>i = len(s) - 1\<close> and \<open>j = len(t) - 1\<close> and only decreases them while they
  are non-negative, so \<^verbatim>\<open>s[i]\<close>, \<^verbatim>\<open>t[j]\<close> and \<^verbatim>\<open>b[i][j]\<close> are read in range. The
  slices \<^verbatim>\<open>t[0:j+1]\<close> and \<^verbatim>\<open>s[0:i+1]\<close> are prefixes.

  Every call of \<^verbatim>\<open>backtrack\<close> opens a frame on Python's stack, and
  \<^verbatim>\<open>BandedAlignmentWithBackTrack\<close> sets the limit of the stack to 1500 frames. The
  argument \<open>frames\<close> is the number of frames the recursion may still open: 1500 less the
  frames in use when \<^verbatim>\<open>backtrack\<close> is called. A call with no frame left raises
  \<^verbatim>\<open>RecursionError\<close>.
\<close>

fun backtrack ::
  "nat \<Rightarrow> ptr_matrix \<Rightarrow> string \<Rightarrow> string \<Rightarrow> int \<Rightarrow> int \<Rightarrow> int \<Rightarrow> py_error + string \<times> string" where
  "backtrack 0 b s t i j band_parameter = Inl RecursionError"
| "backtrack (Suc frames) b s t i j band_parameter =
     (if i < 0 \<and> j < 0 then Inr ('''', '''')
      else if i < 0 then Inr (replicate (nat (j + 1)) CHR ''-'', take (nat (j + 1)) t)
      else if j < 0 then Inr (take (nat (i + 1)) s, replicate (nat (i + 1)) CHR ''-'')
      else if b (nat i, nat j) = Some ''d'' \<and> \<bar>j - i\<bar> < band_parameter then
        (case backtrack frames b s t (i - 1) j band_parameter of
           Inl e \<Rightarrow> Inl e
         | Inr (s_prime, t_prime) \<Rightarrow> Inr (s_prime @ [s ! nat i], t_prime @ [CHR ''-'']))
      else if b (nat i, nat j) = Some ''r'' \<and> \<bar>j - i\<bar> < band_parameter then
        (case backtrack frames b s t i (j - 1) band_parameter of
           Inl e \<Rightarrow> Inl e
         | Inr (s_prime, t_prime) \<Rightarrow> Inr (s_prime @ [CHR ''-''], t_prime @ [t ! nat j]))
      else
        (case backtrack frames b s t (i - 1) (j - 1) band_parameter of
           Inl e \<Rightarrow> Inl e
         | Inr (s_prime, t_prime) \<Rightarrow> Inr (s_prime @ [s ! nat i], t_prime @ [t ! nat j])))"

text \<open>
  \<open>BandedAlignmentWithBackTrack\<close> takes the number of frames left for \<^verbatim>\<open>backtrack\<close> as
  its first argument; the other arguments are those of the source.
\<close>

definition BandedAlignmentWithBackTrack ::
  "nat \<Rightarrow> int \<Rightarrow> int \<Rightarrow> int \<Rightarrow> int \<Rightarrow> string \<Rightarrow> string \<Rightarrow> py_error + score \<times> string \<times> string" where
  "BandedAlignmentWithBackTrack frames match_reward mismatch_penalty indel_penalty
       band_parameter s t =
     (case bt_fill match_reward mismatch_penalty indel_penalty band_parameter s t of
        Inl e \<Rightarrow> Inl e
      | Inr (l, b) \<Rightarrow>
          (case backtrack frames b s t (int (length s) - 1) (int (length t) - 1) band_parameter of
             Inl e \<Rightarrow> Inl e
           | Inr (s_align, t_align) \<Rightarrow> Inr (l (length s, length t), s_align, t_align)))"

subsection \<open>Seed extension: \<^verbatim>\<open>compute_max_seed\<close>\<close>

text \<open>
  \<^verbatim>\<open>ref[a:b]\<close> on a Python string: a negative bound counts from the end, and both
  bounds are then clipped to \<open>[0, len]\<close>; the slice is empty when the bounds cross.
\<close>

definition py_slice :: "'a list \<Rightarrow> int \<Rightarrow> int \<Rightarrow> 'a list" where
  "py_slice xs a b =
     (let n = int (length xs);
          lo = (if a < 0 then max (a + n) 0 else min a n);
          hi = (if b < 0 then max (b + n) 0 else min b n)
      in drop (nat lo) (take (nat hi) xs))"

text \<open>
  The scan keeps \<^verbatim>\<open>(best_score, best_idx, best_seed)\<close>. \<open>seed_step\<close> is the body of the
  inner loop for one reference position \<^verbatim>\<open>ref_idx\<close> of the list at seed offset \<open>i\<close>;
  the source has no test on the window before scoring it. An exception of
  \<^verbatim>\<open>banded_alignment\<close> ends the scan.
\<close>

type_synonym best = "score \<times> int \<times> int"

definition seed_step ::
  "string \<Rightarrow> string \<Rightarrow> int \<Rightarrow> int \<Rightarrow> int \<Rightarrow> int \<Rightarrow> int \<Rightarrow> nat \<Rightarrow> int \<Rightarrow> best \<Rightarrow> py_error + best" where
  "seed_step ref read match_reward mismatch_penalty indel_penalty band_width read_length
       i ref_idx st =
     (let ref_segment = py_slice ref (ref_idx - int i) (ref_idx - int i + read_length)
      in case banded_alignment match_reward mismatch_penalty indel_penalty band_width
                ref_segment read of
           Inl e \<Rightarrow> Inl e
         | Inr score \<Rightarrow> Inr (if fst st < score then (score, ref_idx, int i) else st))"

definition seed_scan ::
  "string \<Rightarrow> string \<Rightarrow> int list list \<Rightarrow> int \<Rightarrow> int \<Rightarrow> int \<Rightarrow> int \<Rightarrow> int \<Rightarrow> py_error + best" where
  "seed_scan ref read seed_idxes match_reward mismatch_penalty indel_penalty band_width
       read_length =
     fold_err (\<lambda>i. fold_err (seed_step ref read match_reward mismatch_penalty indel_penalty
                       band_width read_length i) (seed_idxes ! i))
       [0..<length seed_idxes] (None, - 1, - 1)"

text \<open>
  \<open>compute_max_seed\<close> passes the number of frames left for \<^verbatim>\<open>backtrack\<close> on to
  \<open>BandedAlignmentWithBackTrack\<close>; the other arguments are those of the source. The
  result \<open>Inr None\<close> is the returned \<^verbatim>\<open>None\<close>.
\<close>

definition compute_max_seed ::
  "nat \<Rightarrow> string \<Rightarrow> string \<Rightarrow> int list list \<Rightarrow> int \<Rightarrow> int \<Rightarrow> int \<Rightarrow> int \<Rightarrow> int
     \<Rightarrow> py_error + (int \<times> score \<times> string \<times> string) option" where
  "compute_max_seed frames ref read seed_idxes match_reward mismatch_penalty indel_penalty
       band_width read_length =
     (if length seed_idxes = 0 then Inr None
      else
        (case seed_scan ref read seed_idxes match_reward mismatch_penalty indel_penalty
                band_width read_length of
           Inl e \<Rightarrow> Inl e
         | Inr (best_score, best_idx, best_seed) \<Rightarrow>
             (let best_ref_seg =
                    py_slice ref (best_idx - best_seed) (best_idx - best_seed + read_length)
              in case BandedAlignmentWithBackTrack frames match_reward mismatch_penalty
                        indel_penalty band_width best_ref_seg read of
                   Inl e \<Rightarrow> Inl e
                 | Inr (_, s_align, t_align) \<Rightarrow>
                     Inr (Some (best_idx, best_score, s_align, t_align)))))"

subsection \<open>Sampled suffix array: \<^verbatim>\<open>partial_suffix_array\<close>\<close>

text \<open>
  A suffix array holds indices into the text, which are natural numbers. The loop reads
  \<^verbatim>\<open>sa[idx]\<close> for every element \<open>idx\<close> of \<open>sa\<close>, which raises \<^verbatim>\<open>IndexError\<close> when
  \<open>idx\<close> is not below the length of \<open>sa\<close>, and \<^verbatim>\<open>sa[idx] % k\<close> raises
  \<^verbatim>\<open>ZeroDivisionError\<close> when \<open>k = 0\<close>. The dictionary is a map.
\<close>

fun psa_loop :: "nat list \<Rightarrow> nat \<Rightarrow> nat list \<Rightarrow> (nat \<rightharpoonup> nat) \<Rightarrow> py_error + (nat \<rightharpoonup> nat)" where
  "psa_loop sa k [] partial = Inr partial"
| "psa_loop sa k (idx # rest) partial =
     (if length sa \<le> idx then Inl IndexError
      else if k = 0 then Inl ZeroDivisionError
      else if sa ! idx mod k = 0 then psa_loop sa k rest (partial(idx \<mapsto> sa ! idx))
      else psa_loop sa k rest partial)"

definition partial_suffix_array :: "nat list \<Rightarrow> nat \<Rightarrow> py_error + (nat \<rightharpoonup> nat)" where
  "partial_suffix_array sa k = psa_loop sa k sa Map.empty"

text \<open>
  The semantics the specification documents: for each row \<open>i\<close> in \<open>[0, n)\<close> such that
  \<open>SA[i] mod K = 0\<close>, record \<open>PSA[i] = SA[i]\<close>.
\<close>

definition psa_spec :: "nat list \<Rightarrow> nat \<Rightarrow> (nat \<rightharpoonup> nat)" where
  "psa_spec sa k = (\<lambda>i. if i < length sa \<and> sa ! i mod k = 0 then Some (sa ! i) else None)"

subsection \<open>Suffix array construction: \<^verbatim>\<open>suffix_array\<close>\<close>

text \<open>
  An object of the class \<^verbatim>\<open>suffix\<close> has the field \<^verbatim>\<open>index\<close> and the two-element list
  \<^verbatim>\<open>rank\<close>; the record has one field for each of \<^verbatim>\<open>rank[0]\<close> and \<^verbatim>\<open>rank[1]\<close>. The list
  \<^verbatim>\<open>suffixes\<close> holds the objects themselves, every object sits in the list once, and
  \<^verbatim>\<open>sorted\<close> returns a new list of the same objects: an assignment to a field of
  \<^verbatim>\<open>suffixes[i]\<close> is the update of element \<open>i\<close> of the list.
\<close>

record suffix =
  index :: nat
  rank0 :: int
  rank1 :: int

definition get_rank :: "char \<Rightarrow> int" where
  "get_rank c = int (of_char c) - int (of_char CHR ''a'')"

text \<open>The first loop: the ranking of every suffix by its first two characters.\<close>

definition initial_suffixes :: "string \<Rightarrow> suffix list" where
  "initial_suffixes text =
     map (\<lambda>i. \<lparr> index = i,
                rank0 = get_rank (text ! i),
                rank1 = (if i + 1 < length text then get_rank (text ! (i + 1)) else - 1) \<rparr>)
       [0..<length text]"

text \<open>
  \<^verbatim>\<open>sorted(suffixes, key=lambda element: (element.rank[0], element.rank[1]))\<close>: Python's sort
  is stable and compares the key tuples lexicographically; so does \<open>sort_key\<close> with the
  lexicographic order on pairs.
\<close>

definition sort_suffixes :: "suffix list \<Rightarrow> suffix list" where
  "sort_suffixes suffixes = sort_key (\<lambda>element. (rank0 element, rank1 element)) suffixes"

text \<open>
  One iteration of \<^verbatim>\<open>for i in range(1, len(text))\<close> in the body of the \<^verbatim>\<open>while\<close> loop.
  The state is \<^verbatim>\<open>(suffixes, ind, rank, prev_rank)\<close>.
\<close>

definition assign_rank_step ::
  "nat \<Rightarrow> suffix list \<times> nat list \<times> int \<times> int \<Rightarrow> suffix list \<times> nat list \<times> int \<times> int" where
  "assign_rank_step i st =
     (case st of (suffixes, ind, rank, prev_rank) \<Rightarrow>
        (if rank0 (suffixes ! i) = prev_rank \<and> rank1 (suffixes ! i) = rank1 (suffixes ! (i - 1))
         then (suffixes[i := (suffixes ! i)\<lparr>rank0 := rank\<rparr>],
               ind[index (suffixes ! i) := i], rank, rank0 (suffixes ! i))
         else (suffixes[i := (suffixes ! i)\<lparr>rank0 := rank + 1\<rparr>],
               ind[index (suffixes ! i) := i], rank + 1, rank0 (suffixes ! i))))"

text \<open>The first suffix gets rank 0; then the loop over the others.\<close>

definition assign_ranks :: "string \<Rightarrow> suffix list \<times> nat list \<Rightarrow> suffix list \<times> nat list" where
  "assign_ranks text st =
     (case st of (suffixes, ind) \<Rightarrow>
        (let prev_rank = rank0 (suffixes ! 0);
             suffixes1 = suffixes[0 := (suffixes ! 0)\<lparr>rank0 := 0\<rparr>];
             ind1 = ind[index (suffixes1 ! 0) := 0];
             (suffixes2, ind2, rank, prev_rank2) =
                fold assign_rank_step [1..<length text] (suffixes1, ind1, 0, prev_rank)
         in (suffixes2, ind2)))"

text \<open>
  One iteration of the loop that assigns the next rank. The conditional expression reads
  \<^verbatim>\<open>ind[nextindex]\<close> only when \<^verbatim>\<open>nextindex < len(text)\<close>.
\<close>

definition next_rank_step :: "string \<Rightarrow> nat \<Rightarrow> nat list \<Rightarrow> nat \<Rightarrow> suffix list \<Rightarrow> suffix list" where
  "next_rank_step text k ind i suffixes =
     (let nextindex = index (suffixes ! i) + k div 2
      in suffixes[i := (suffixes ! i)
           \<lparr>rank1 := (if nextindex < length text then rank0 (suffixes ! (ind ! nextindex))
                      else - 1)\<rparr>])"

definition sa_round :: "string \<Rightarrow> nat \<Rightarrow> suffix list \<times> nat list \<Rightarrow> suffix list \<times> nat list" where
  "sa_round text k st =
     (case assign_ranks text st of (suffixes, ind) \<Rightarrow>
        (sort_suffixes (fold (next_rank_step text k ind) [0..<length text] suffixes), ind))"

text \<open>
  The loop \<^verbatim>\<open>while (k < 2 * len(text))\<close> with \<^verbatim>\<open>k *= 2\<close> at the end of its body. That it
  ends is a property of the starting value \<open>k = 4\<close>, so the loop is a partial function
  into \<open>option\<close>, and its termination is proved below.
\<close>

partial_function (option) sa_loop ::
  "string \<Rightarrow> nat \<Rightarrow> suffix list \<times> nat list \<Rightarrow> (suffix list \<times> nat list) option" where
  "sa_loop text k st =
     (if k < 2 * length text then sa_loop text (k * 2) (sa_round text k st) else Some st)"

declare sa_loop.simps [code]

definition suffix_array :: "string \<Rightarrow> nat list option" where
  "suffix_array text =
     (case sa_loop text 4 (sort_suffixes (initial_suffixes text), replicate (length text) 0) of
        None \<Rightarrow> None
      | Some (suffixes, ind) \<Rightarrow> Some (map index suffixes))"

subsection \<open>Reading a CIGAR string back\<close>

text \<open>
  The run lengths of a CIGAR string are read off the string itself: a run is a decimal
  number followed by one operation letter. \<open>parse_cigar\<close> is that reader; it is used
  to state properties of the string \<open>calculate_cigar\<close> returns.
\<close>

definition digit_val :: "char \<Rightarrow> nat option" where
  "digit_val c =
     (if 48 \<le> (of_char c :: nat) \<and> (of_char c :: nat) \<le> 57 then Some (of_char c - 48) else None)"

fun parse_runs :: "nat \<Rightarrow> string \<Rightarrow> run list" where
  "parse_runs acc [] = []"
| "parse_runs acc (c # cs) =
     (case digit_val c of
        Some d \<Rightarrow> parse_runs (10 * acc + d) cs
      | None \<Rightarrow> (acc, c) # parse_runs 0 cs)"

definition parse_cigar :: "string \<Rightarrow> run list" where
  "parse_cigar = parse_runs 0"

text \<open>
  The operation class of a column, as the three branches of the loop decide it, and the
  pending total of a loop state: the runs already emitted plus the counters not yet flushed.
\<close>

fun col_in :: "char set \<Rightarrow> char \<times> char \<Rightarrow> bool" where
  "col_in ops (s, t) =
     (if s = CHR ''-'' \<and> t \<noteq> CHR ''-'' then CHR ''D'' \<in> ops
      else if s \<noteq> CHR ''-'' \<and> t = CHR ''-'' then CHR ''I'' \<in> ops
      else CHR ''M'' \<in> ops)"

fun pending :: "char set \<Rightarrow> cigar_state \<Rightarrow> nat" where
  "pending ops (cigar, match, ins, del) =
     run_total ops cigar + (if CHR ''M'' \<in> ops then match else 0)
       + (if CHR ''I'' \<in> ops then ins else 0) + (if CHR ''D'' \<in> ops then del else 0)"

definition op_letters :: "run list \<Rightarrow> bool" where
  "op_letters rs = list_all (\<lambda>r. snd r = CHR ''M'' \<or> snd r = CHR ''I'' \<or> snd r = CHR ''D'') rs"

definition no_double_gap :: "string \<Rightarrow> string \<Rightarrow> bool" where
  "no_double_gap a b = list_all (\<lambda>(x, y). \<not> (x = CHR ''-'' \<and> y = CHR ''-'')) (zip a b)"

subsection \<open>Recurrence and invariant for the alignment matrix\<close>

text \<open>
  \<open>float_ok v\<close> says that the integer \<open>v\<close> can be converted to a double.
  \<open>score_plus\<close> is addition on scores with minus infinity absorbing, the value of
  \<open>score_add\<close> when it raises nothing.
\<close>

definition float_ok :: "int \<Rightarrow> bool" where
  "float_ok v = (\<bar>round_f64 v\<bar> < 2 ^ 1024)"

definition score_plus :: "score \<Rightarrow> int \<Rightarrow> score" where
  "score_plus x d = map_option (\<lambda>v. v + d) x"

text \<open>
  \<open>bt_H\<close> is the value the loop of \<open>BandedAlignmentWithBackTrack\<close> leaves in cell
  \<open>(i, j)\<close>, written as a recurrence; that the loop computes it is proved below
  (\<open>bt_fill_H\<close>). \<open>filled m i j\<close> is the set of cells a row-major loop over columns
  \<open>0..m\<close> has written before it reaches cell \<open>(i, j)\<close>.
\<close>

fun bt_H :: "int \<Rightarrow> int \<Rightarrow> int \<Rightarrow> int \<Rightarrow> string \<Rightarrow> string \<Rightarrow> nat \<Rightarrow> nat \<Rightarrow> score" where
  "bt_H mr mmp indp bp s t 0 j = Some (int j * (- indp))"
| "bt_H mr mmp indp bp s t (Suc i) 0 = Some (int (Suc i) * (- indp))"
| "bt_H mr mmp indp bp s t (Suc i) (Suc j) =
     (if \<bar>int (Suc j) - int (Suc i)\<bar> < bp then
        max3 (score_plus (bt_H mr mmp indp bp s t i (Suc j)) (- indp))
             (score_plus (bt_H mr mmp indp bp s t (Suc i) j) (- indp))
             (score_plus (bt_H mr mmp indp bp s t i j) (if s ! i = t ! j then mr else - mmp))
      else None)"

definition filled :: "nat \<Rightarrow> nat \<Rightarrow> nat \<Rightarrow> nat \<times> nat \<Rightarrow> bool" where
  "filled m i j c = (snd c \<le> m \<and> (fst c < i \<or> (fst c = i \<and> snd c < j)))"

definition fill_inv :: "(nat \<Rightarrow> nat \<Rightarrow> score) \<Rightarrow> nat \<Rightarrow> matrix \<Rightarrow> nat \<Rightarrow> nat \<Rightarrow> bool" where
  "fill_inv H m l i j = (\<forall>c. l c = (if filled m i j c then H (fst c) (snd c) else None))"

text \<open>
  The candidates of the scan in iteration order, and the window of the reference a
  candidate is scored against.
\<close>

definition candidates :: "int list list \<Rightarrow> (nat \<times> int) list" where
  "candidates seed_idxes =
     concat (map (\<lambda>i. map (\<lambda>p. (i, p)) (seed_idxes ! i)) [0..<length seed_idxes])"


subsection \<open>Invariants of the suffix array construction\<close>

text \<open>
  The sort key of a suffix object; the prefix of length \<open>h\<close> of the suffix of \<open>T\<close> at \<open>i\<close>;
  and \<open>chg S p\<close>, the number of positions \<open>q\<close> with \<open>0 < q \<le> p\<close> whose key differs from
  the key before it, which is the rank the first loop of a round assigns at position \<open>p\<close>.
\<close>

definition key :: "suffix \<Rightarrow> int \<times> int" where
  "key e = (rank0 e, rank1 e)"

definition pre :: "string \<Rightarrow> nat \<Rightarrow> nat \<Rightarrow> string" where
  "pre T h i = take h (drop i T)"

fun chg :: "suffix list \<Rightarrow> nat \<Rightarrow> int" where
  "chg S 0 = 0"
| "chg S (Suc p) = (if key (S ! Suc p) = key (S ! p) then chg S p else chg S p + 1)"

text \<open>Loop invariants of the two inner loops of a round.\<close>

definition assign_inv ::
  "suffix list \<Rightarrow> nat \<Rightarrow> suffix list \<times> nat list \<times> int \<times> int \<Rightarrow> bool" where
  "assign_inv S i st =
     (case st of (S', ind', rank, prev_rank) \<Rightarrow>
        length S' = length S
      \<and> (\<forall>p < length S. index (S' ! p) = index (S ! p) \<and> rank1 (S' ! p) = rank1 (S ! p)
            \<and> rank0 (S' ! p) = (if p < i then chg S p else rank0 (S ! p)))
      \<and> rank = chg S (i - 1) \<and> prev_rank = rank0 (S ! (i - 1)))"

definition ind_inv :: "suffix list \<Rightarrow> nat \<Rightarrow> nat \<Rightarrow> suffix list \<times> nat list \<times> int \<times> int \<Rightarrow> bool" where
  "ind_inv S m i st =
     (case st of (S', ind', rank, prev_rank) \<Rightarrow>
        length S' = length S \<and> length ind' = m
      \<and> (\<forall>p < length S. index (S' ! p) = index (S ! p))
      \<and> (\<forall>p < i. ind' ! (index (S ! p)) = p))"

definition next_inv :: "string \<Rightarrow> nat \<Rightarrow> nat list \<Rightarrow> suffix list \<Rightarrow> nat \<Rightarrow> suffix list \<Rightarrow> bool" where
  "next_inv T k ind S i S' =
     (length S' = length S
      \<and> (\<forall>p < length S. index (S' ! p) = index (S ! p) \<and> rank0 (S' ! p) = rank0 (S ! p)
            \<and> rank1 (S' ! p) =
                (if p < i then
                   (if index (S ! p) + k div 2 < length T
                    then rank0 (S ! (ind ! (index (S ! p) + k div 2))) else - 1)
                 else rank1 (S ! p))))"

text \<open>
  The invariants of the outer loop: the indices of the suffix objects are a permutation
  of \<open>[0, n)\<close>; and the keys are sorted and order the objects as the prefixes of length
  \<open>h\<close> of their suffixes are ordered.
\<close>

definition perm_inv :: "string \<Rightarrow> suffix list \<Rightarrow> bool" where
  "perm_inv T S \<longleftrightarrow> mset (map index S) = mset [0..<length T]"

definition ord_inv :: "string \<Rightarrow> nat \<Rightarrow> suffix list \<Rightarrow> bool" where
  "ord_inv T h S \<longleftrightarrow>
     sorted (map key S)
     \<and> (\<forall>a \<in> set S. \<forall>b \<in> set S. key a \<le> key b \<longleftrightarrow> pre T h (index a) \<le> pre T h (index b))"

text \<open>
  The inputs on which the end marker \<open>-1\<close> of the first ranking is below every rank it
  is compared with: the last character of the text occurs nowhere else in it, or every
  character is at least \<open>a\<close>.
\<close>

definition sa_input_ok :: "string \<Rightarrow> bool" where
  "sa_input_ok T \<longleftrightarrow> last T \<notin> set (butlast T) \<or> (\<forall>c \<in> set T. CHR ''a'' \<le> c)"

section \<open>Properties of the CIGAR encoder\<close>

lemma run_total_append [simp]:
  "run_total ops (xs @ ys) = run_total ops xs + run_total ops ys"
  by (simp add: run_total_def)

lemma run_total_single [simp]: "run_total ops [(n, c)] = (if c \<in> ops then n else 0)"
  by (simp add: run_total_def)

lemma run_total_Nil [simp]: "run_total ops [] = 0"
  by (simp add: run_total_def)

lemma run_total_UNIV: "run_total UNIV rs = sum_list (map fst rs)"
  by (simp add: run_total_def)

lemma pending_step:
  "pending ops (cigar_step st col) = pending ops st + (if col_in ops col then 1 else 0)"
  by (cases st; cases col) (simp add: Let_def)

lemma pending_loop:
  "pending ops (cigar_loop st cols) = pending ops st + length (filter (col_in ops) cols)"
  by (induction cols arbitrary: st) (simp_all add: pending_step)

lemma run_total_flush: "run_total ops (cigar_flush st) = pending ops st"
  by (cases st) (simp add: Let_def)

lemma run_total_cigar_runs:
  "run_total ops (cigar_runs a b) = length (filter (col_in ops) (zip a b))"
  by (simp add: cigar_runs_def run_total_flush pending_loop)

text \<open>Every run the encoder emits carries one of the letters M, I, D.\<close>

lemma op_letters_append [simp]: "op_letters (xs @ ys) \<longleftrightarrow> op_letters xs \<and> op_letters ys"
  by (simp add: op_letters_def)

lemma op_letters_step:
  "op_letters (fst st) \<Longrightarrow> op_letters (fst (cigar_step st col))"
  by (cases st; cases col) (simp add: Let_def op_letters_def)

lemma op_letters_loop:
  "op_letters (fst st) \<Longrightarrow> op_letters (fst (cigar_loop st cols))"
  by (induction cols arbitrary: st) (simp_all add: op_letters_step)

lemma op_letters_flush: "op_letters (fst st) \<Longrightarrow> op_letters (cigar_flush st)"
  by (cases st) (simp add: Let_def op_letters_def)

lemma op_letters_cigar_runs: "op_letters (cigar_runs a b)"
  unfolding cigar_runs_def
  by (rule op_letters_flush, rule op_letters_loop) (simp add: op_letters_def)

text \<open>Decimal printing followed by reading is the identity.\<close>

lemma digit_val_digit_char: "d < 10 \<Longrightarrow> digit_val (digit_char d) = Some d"
  by (simp add: digit_val_def digit_char_def)

lemma parse_runs_str_nat:
  "parse_runs acc (str_nat n @ rest) = parse_runs (acc * 10 ^ length (str_nat n) + n) rest"
proof (induction n arbitrary: acc rest rule: str_nat.induct)
  case (1 n)
  show ?case
  proof (cases "n < 10")
    case True
    then show ?thesis
      by (simp add: str_nat.simps [of n] digit_val_digit_char mult.commute)
  next
    case False
    have "parse_runs acc (str_nat n @ rest)
        = parse_runs acc (str_nat (n div 10) @ digit_char (n mod 10) # rest)"
      using False by (simp add: str_nat.simps [of n])
    also have "\<dots> = parse_runs (acc * 10 ^ length (str_nat (n div 10)) + n div 10)
        (digit_char (n mod 10) # rest)"
      using False by (rule "1.IH")
    also have "\<dots> = parse_runs (acc * 10 ^ length (str_nat n) + n) rest"
      using False by (simp add: str_nat.simps [of n] digit_val_digit_char algebra_simps)
    finally show ?thesis .
  qed
qed

lemma parse_runs_format:
  "digit_val (snd r) = None \<Longrightarrow> parse_runs 0 (format_run r @ rest) = r # parse_runs 0 rest"
  by (cases r) (simp add: format_run_def parse_runs_str_nat)

lemma parse_cigar_join:
  "list_all (\<lambda>r. digit_val (snd r) = None) rs \<Longrightarrow> parse_cigar (join_runs rs) = rs"
  unfolding parse_cigar_def join_runs_def
  by (induction rs) (simp_all add: parse_runs_format)

lemma parse_calculate_cigar: "parse_cigar (calculate_cigar a b) = cigar_runs a b"
proof -
  have "list_all (\<lambda>r. digit_val (snd r) = None) (cigar_runs a b)"
    using op_letters_cigar_runs [of a b]
    unfolding op_letters_def by (rule list.pred_mono_strong) (auto simp: digit_val_def)
  then show ?thesis
    by (simp add: calculate_cigar_def parse_cigar_join)
qed

text \<open>Counting columns of a gap-free-in-at-most-one-row alignment.\<close>

lemma count_cols_left:
  "length a = length b \<Longrightarrow> no_double_gap a b \<Longrightarrow>
   length (filter (col_in {CHR ''M'', CHR ''I''}) (zip a b)) = length (strip_gaps a)"
  by (induction a b rule: list_induct2) (auto simp: no_double_gap_def strip_gaps_def)

lemma count_cols_right:
  "length a = length b \<Longrightarrow> no_double_gap a b \<Longrightarrow>
   length (filter (col_in {CHR ''M'', CHR ''D''}) (zip a b)) = length (strip_gaps b)"
  by (induction a b rule: list_induct2) (auto simp: no_double_gap_def strip_gaps_def)

lemma count_cols_all: "length (filter (col_in UNIV) cols) = length cols"
  by (induction cols) auto

text \<open>
  Claim C8, as the code has it. For equal-length aligned strings with no column of two
  gaps, the run lengths read off \<open>calculate_cigar aligned_s aligned_t\<close> sum to the number
  of columns; the M and I runs sum to the length of \<open>aligned_s\<close> without its gaps, and the
  M and D runs sum to the length of \<open>aligned_t\<close> without its gaps. (The code emits D for a
  gap in the first string and I for a gap in the second.)
\<close>

theorem cigar_run_sums:
  assumes "length aligned_s = length aligned_t"
    and "no_double_gap aligned_s aligned_t"
  shows "sum_list (map fst (parse_cigar (calculate_cigar aligned_s aligned_t))) = length aligned_s
    \<and> run_total {CHR ''M'', CHR ''I''} (parse_cigar (calculate_cigar aligned_s aligned_t))
        = length (strip_gaps aligned_s)
    \<and> run_total {CHR ''M'', CHR ''D''} (parse_cigar (calculate_cigar aligned_s aligned_t))
        = length (strip_gaps aligned_t)"
proof -
  have "sum_list (map fst (cigar_runs aligned_s aligned_t)) = length aligned_s"
    using assms(1) run_total_cigar_runs [of UNIV aligned_s aligned_t]
    by (simp add: run_total_UNIV count_cols_all)
  moreover have "run_total {CHR ''M'', CHR ''I''} (cigar_runs aligned_s aligned_t)
      = length (strip_gaps aligned_s)"
    using assms by (simp add: run_total_cigar_runs count_cols_left)
  moreover have "run_total {CHR ''M'', CHR ''D''} (cigar_runs aligned_s aligned_t)
      = length (strip_gaps aligned_t)"
    using assms by (simp add: run_total_cigar_runs count_cols_right)
  ultimately show ?thesis
    by (simp add: parse_calculate_cigar)
qed

theorem cigar_run_sums_witness:
  "length ''AC-GT'' = length ''A-CGT'' \<and> no_double_gap ''AC-GT'' ''A-CGT''
   \<and> calculate_cigar ''AC-GT'' ''A-CGT'' = ''1M1I1D2M''
   \<and> sum_list (map fst (parse_cigar (calculate_cigar ''AC-GT'' ''A-CGT''))) = 5
   \<and> run_total {CHR ''M'', CHR ''I''} (parse_cigar (calculate_cigar ''AC-GT'' ''A-CGT'')) = 4
   \<and> run_total {CHR ''M'', CHR ''D''} (parse_cigar (calculate_cigar ''AC-GT'' ''A-CGT'')) = 4"
proof -
  have h1: "length ''AC-GT'' = length ''A-CGT''" by simp
  have h2: "no_double_gap ''AC-GT'' ''A-CGT''" by (simp add: no_double_gap_def)
  have h3: "calculate_cigar ''AC-GT'' ''A-CGT'' = ''1M1I1D2M''" by code_simp
  show ?thesis
    using cigar_run_sums [OF h1 h2] h1 h2 h3 by (simp add: strip_gaps_def)
qed

text \<open>
  Claim C8 as it is worded pairs M and D with the first string. At the one-column
  alignment of a gap against \<open>A\<close> the code returns \<open>1D\<close>, so M and D sum to 1 while the
  first string without its gap is empty.
\<close>

theorem cigar_md_counterexample:
  "length ''-'' = length ''A'' \<and> no_double_gap ''-'' ''A''
   \<and> calculate_cigar ''-'' ''A'' = ''1D''
   \<and> run_total {CHR ''M'', CHR ''D''} (parse_cigar (calculate_cigar ''-'' ''A'')) = 1
   \<and> length (strip_gaps ''-'') = 0"
proof -
  have h: "calculate_cigar ''-'' ''A'' = ''1D''" by code_simp
  have p: "parse_cigar ''1D'' = [(1, CHR ''D'')]" by code_simp
  show ?thesis
    by (simp add: h p no_double_gap_def strip_gaps_def)
qed

text \<open>
  Claim C10. \<open>calculate_cigar\<close> is a total function: its loop runs over
  \<^verbatim>\<open>zip(alignment_s, alignment_t)\<close>, which stops at the shorter input, and no operation in
  it can raise. The columns past the shorter input are ignored.
\<close>

theorem calculate_cigar_truncates:
  "calculate_cigar a b
     = calculate_cigar (take (min (length a) (length b)) a) (take (min (length a) (length b)) b)"
proof -
  have "zip (take (min (length a) (length b)) a) (take (min (length a) (length b)) b)
      = take (min (length a) (length b)) (zip a b)"
    by (simp add: take_zip)
  also have "\<dots> = zip a b"
    by simp
  finally show ?thesis
    by (simp add: calculate_cigar_def cigar_runs_def)
qed

section \<open>Properties of the alignment engine\<close>

subsection \<open>Loops that can raise\<close>

lemma fold_err_append:
  "fold_err f (xs @ ys) st = (case fold_err f xs st of Inl e \<Rightarrow> Inl e | Inr st' \<Rightarrow> fold_err f ys st')"
  by (induction xs arbitrary: st) (simp_all split: sum.splits)

lemma fold_err_snoc_Inr:
  assumes "fold_err f (xs @ [x]) st = Inr st'"
  shows "\<exists>st1. fold_err f xs st = Inr st1 \<and> f x st1 = Inr st'"
  using assms by (auto simp: fold_err_append split: sum.splits)

lemma fold_err_total:
  assumes "\<And>x st. x \<in> set xs \<Longrightarrow> \<exists>st'. f x st = Inr st'"
  shows "\<exists>st'. fold_err f xs st = Inr st'"
  using assms
proof (induction xs arbitrary: st)
  case (Cons x xs)
  obtain st1 where st1: "f x st = Inr st1" using Cons.prems [of x st] by auto
  have "\<exists>st'. fold_err f xs st1 = Inr st'"
    using Cons.prems by (intro Cons.IH) simp
  then show ?case by (simp add: st1)
qed simp

lemma fold_err_concat:
  "fold_err f (concat xss) = fold_err (\<lambda>xs. fold_err f xs) xss"
proof
  fix st
  show "fold_err f (concat xss) st = fold_err (\<lambda>xs. fold_err f xs) xss st"
    by (induction xss arbitrary: st) (simp_all add: fold_err_append split: sum.splits)
qed

lemma fold_err_map: "fold_err f (map g xs) = fold_err (\<lambda>x. f (g x)) xs"
proof
  fix st
  show "fold_err f (map g xs) st = fold_err (\<lambda>x. f (g x)) xs st"
    by (induction xs arbitrary: st) (simp_all split: sum.splits)
qed

subsection \<open>Conversion to a double\<close>

lemma bit_length_le: "bit_length n \<le> k \<longleftrightarrow> n < 2 ^ k"
proof (induction k arbitrary: n)
  case 0
  show ?case by (subst bit_length.simps) auto
next
  case (Suc k)
  have "bit_length n \<le> Suc k \<longleftrightarrow> n \<le> 0 \<or> bit_length (n div 2) \<le> k"
    by (subst bit_length.simps) simp
  also have "\<dots> \<longleftrightarrow> n \<le> 0 \<or> n div 2 < 2 ^ k" by (simp add: Suc.IH)
  also have "\<dots> \<longleftrightarrow> n < 2 ^ Suc k"
  proof -
    define m :: int where "m = 2 ^ k"
    have "0 < m" by (simp add: m_def)
    then have "n \<le> 0 \<or> n div 2 < m \<longleftrightarrow> n < 2 * m" by presburger
    then show ?thesis by (simp add: m_def)
  qed
  finally show ?case .
qed

lemma round_f64_small: "\<bar>v\<bar> < 2 ^ 53 \<Longrightarrow> round_f64 v = v"
  by (simp add: round_f64_def bit_length_le)

lemma round_f64_minus: "round_f64 (- v) = - round_f64 v"
  by (simp add: round_f64_def Let_def)

lemma float_ok_minus [simp]: "float_ok (- v) = float_ok v"
  by (simp add: float_ok_def round_f64_minus)

lemma float_ok_small: "\<bar>v\<bar> < 2 ^ 53 \<Longrightarrow> float_ok v"
proof -
  assume a: "\<bar>v\<bar> < 2 ^ 53"
  have "(2 :: int) ^ 53 < 2 ^ 1024" by simp
  then show ?thesis using a by (simp add: float_ok_def round_f64_small)
qed

lemma float_of_int_ok: "float_ok v \<Longrightarrow> float_of_int v = Inr (round_f64 v)"
  by (simp add: float_ok_def float_of_int_def)

lemma score_add_ok: "float_ok d \<Longrightarrow> score_add x d = Inr (score_plus x d)"
  by (cases x) (simp_all add: score_add_def score_plus_def float_of_int_ok)

lemma score_add_Inr: "score_add x d = Inr y \<Longrightarrow> y = score_plus x d"
  by (cases x) (auto simp: score_add_def score_plus_def split: sum.splits)

subsection \<open>The backtrace\<close>

lemma strip_gaps_append [simp]: "strip_gaps (xs @ ys) = strip_gaps xs @ strip_gaps ys"
  by (simp add: strip_gaps_def)

lemma strip_gaps_replicate [simp]: "strip_gaps (replicate n CHR ''-'') = []"
  by (simp add: strip_gaps_def)

lemma strip_gaps_gap [simp]: "strip_gaps [CHR ''-''] = []"
  by (simp add: strip_gaps_def)

lemma strip_gaps_Nil [simp]: "strip_gaps [] = []"
  by (simp add: strip_gaps_def)

lemma take_nat_step:
  "0 \<le> i \<Longrightarrow> i < int (length xs) \<Longrightarrow> take (nat (i + 1)) xs = take (nat i) xs @ [xs ! nat i]"
  by (simp add: nat_add_distrib take_Suc_conv_app_nth)

lemma backtrack_strip:
  "backtrack frames b s t i j bp = Inr (s_align, t_align) \<Longrightarrow>
   i < int (length s) \<Longrightarrow> j < int (length t) \<Longrightarrow>
   length s_align = length t_align
   \<and> strip_gaps s_align = strip_gaps (take (nat (i + 1)) s)
   \<and> strip_gaps t_align = strip_gaps (take (nat (j + 1)) t)"
proof (induction frames arbitrary: i j s_align t_align)
  case 0
  then show ?case by simp
next
  case (Suc frames)
  note res = Suc.prems(1)
  show ?case
  proof (cases "i < 0 \<or> j < 0")
    case True
    then show ?thesis using res Suc.prems(2,3) by (auto split: if_splits)
  next
    case False
    then have ij: "0 \<le> i" "0 \<le> j" by auto
    note ti = take_nat_step [OF ij(1) Suc.prems(2)]
    note tj = take_nat_step [OF ij(2) Suc.prems(3)]
    consider (d) "b (nat i, nat j) = Some ''d'' \<and> \<bar>j - i\<bar> < bp"
      | (r) "\<not> (b (nat i, nat j) = Some ''d'' \<and> \<bar>j - i\<bar> < bp)"
            "b (nat i, nat j) = Some ''r'' \<and> \<bar>j - i\<bar> < bp"
      | (dr) "\<not> (b (nat i, nat j) = Some ''d'' \<and> \<bar>j - i\<bar> < bp)"
            "\<not> (b (nat i, nat j) = Some ''r'' \<and> \<bar>j - i\<bar> < bp)"
      by blast
    then show ?thesis
    proof cases
      case d
      obtain s' t' where rec: "backtrack frames b s t (i - 1) j bp = Inr (s', t')"
        and out: "s_align = s' @ [s ! nat i]" "t_align = t' @ [CHR ''-'']"
        using res ij d by (auto split: sum.splits)
      have "length s' = length t'
        \<and> strip_gaps s' = strip_gaps (take (nat (i - 1 + 1)) s)
        \<and> strip_gaps t' = strip_gaps (take (nat (j + 1)) t)"
        using rec Suc.prems(2,3) by (intro Suc.IH) simp_all
      then show ?thesis using out ti by simp
    next
      case r
      obtain s' t' where rec: "backtrack frames b s t i (j - 1) bp = Inr (s', t')"
        and out: "s_align = s' @ [CHR ''-'']" "t_align = t' @ [t ! nat j]"
        using res ij r by (auto split: sum.splits)
      have "length s' = length t'
        \<and> strip_gaps s' = strip_gaps (take (nat (i + 1)) s)
        \<and> strip_gaps t' = strip_gaps (take (nat (j - 1 + 1)) t)"
        using rec Suc.prems(2,3) by (intro Suc.IH) simp_all
      then show ?thesis using out tj by simp
    next
      case dr
      obtain s' t' where rec: "backtrack frames b s t (i - 1) (j - 1) bp = Inr (s', t')"
        and out: "s_align = s' @ [s ! nat i]" "t_align = t' @ [t ! nat j]"
        using res ij dr by (auto split: sum.splits)
      have "length s' = length t'
        \<and> strip_gaps s' = strip_gaps (take (nat (i - 1 + 1)) s)
        \<and> strip_gaps t' = strip_gaps (take (nat (j - 1 + 1)) t)"
        using rec Suc.prems(2,3) by (intro Suc.IH) simp_all
      then show ?thesis using out ti tj by simp
    qed
  qed
qed

lemma backtrack_nonempty:
  "backtrack frames b s t i j bp = Inr (s_align, t_align) \<Longrightarrow> 0 \<le> i \<Longrightarrow> 0 \<le> j \<Longrightarrow>
   s_align \<noteq> [] \<and> t_align \<noteq> []"
  by (cases frames) (auto split: if_splits sum.splits)

text \<open>
  One frame for every column of the alignment and one for the last call: the backtrace
  returns when more frames are left than the two strings have characters together.
\<close>

lemma backtrack_returns:
  "nat (i + 1) + nat (j + 1) < frames \<Longrightarrow>
   \<exists>s_align t_align. backtrack frames b s t i j bp = Inr (s_align, t_align)"
proof (induction frames arbitrary: i j)
  case 0
  then show ?case by simp
next
  case (Suc frames)
  show ?case
  proof (cases "i < 0 \<or> j < 0")
    case True
    then show ?thesis by auto
  next
    case False
    then have ij: "0 \<le> i" "0 \<le> j" by auto
    have "\<exists>s' t'. backtrack frames b s t (i - 1) j bp = Inr (s', t')"
      using Suc.prems ij by (intro Suc.IH) simp
    moreover have "\<exists>s' t'. backtrack frames b s t i (j - 1) bp = Inr (s', t')"
      using Suc.prems ij by (intro Suc.IH) simp
    moreover have "\<exists>s' t'. backtrack frames b s t (i - 1) (j - 1) bp = Inr (s', t')"
      using Suc.prems ij by (intro Suc.IH) simp
    ultimately show ?thesis using ij by auto
  qed
qed

text \<open>With too few frames left the backtrace raises.\<close>

lemma backtrack_raises:
  "frames \<le> nat (min i j + 1) \<Longrightarrow> backtrack frames b s t i j bp = Inl RecursionError"
proof (induction frames arbitrary: i j)
  case 0
  then show ?case by simp
next
  case (Suc frames)
  then have ij: "0 \<le> i" "0 \<le> j" by auto
  have "backtrack frames b s t (i - 1) j bp = Inl RecursionError"
    using Suc.prems by (intro Suc.IH) auto
  moreover have "backtrack frames b s t i (j - 1) bp = Inl RecursionError"
    using Suc.prems by (intro Suc.IH) auto
  moreover have "backtrack frames b s t (i - 1) (j - 1) bp = Inl RecursionError"
    using Suc.prems by (intro Suc.IH) auto
  ultimately show ?case using ij by simp
qed

lemma BandedAlignmentWithBackTrack_strip:
  assumes "BandedAlignmentWithBackTrack frames mr mmp indp bp s t = Inr (score, s_align, t_align)"
  shows "length s_align = length t_align \<and> strip_gaps s_align = strip_gaps s
     \<and> strip_gaps t_align = strip_gaps t"
proof -
  obtain l b where lb: "bt_fill mr mmp indp bp s t = Inr (l, b)"
    and bt: "backtrack frames b s t (int (length s) - 1) (int (length t) - 1) bp
               = Inr (s_align, t_align)"
    using assms by (auto simp: BandedAlignmentWithBackTrack_def split: sum.splits)
  show ?thesis
    using backtrack_strip [OF bt] by simp
qed

lemma BandedAlignmentWithBackTrack_nonempty:
  assumes "BandedAlignmentWithBackTrack frames mr mmp indp bp s t = Inr (score, s_align, t_align)"
    and "s \<noteq> []" "t \<noteq> []"
  shows "s_align \<noteq> [] \<and> t_align \<noteq> []"
proof -
  obtain l b where lb: "bt_fill mr mmp indp bp s t = Inr (l, b)"
    and bt: "backtrack frames b s t (int (length s) - 1) (int (length t) - 1) bp
               = Inr (s_align, t_align)"
    using assms by (auto simp: BandedAlignmentWithBackTrack_def split: sum.splits)
  have "0 \<le> int (length s) - 1" "0 \<le> int (length t) - 1"
    using assms(2,3) by (simp_all add: Suc_le_eq)
  then show ?thesis
    using backtrack_nonempty [OF bt] by simp
qed

subsection \<open>The matrix holds the recurrence\<close>

lemma bt_cell_returns:
  assumes "float_ok mr" "float_ok mmp" "float_ok indp"
  shows "\<exists>lb'. bt_cell mr mmp indp bp s t i j lb = Inr lb'"
  using assms by (simp add: bt_cell_def Let_def score_add_ok)

lemma bt_fill_returns:
  assumes "float_ok mr" "float_ok mmp" "float_ok indp"
  shows "\<exists>l b. bt_fill mr mmp indp bp s t = Inr (l, b)"
proof -
  have "\<exists>lb. bt_fill mr mmp indp bp s t = Inr lb"
    unfolding bt_fill_def
    by (intro fold_err_total bt_cell_returns assms)
  then show ?thesis by auto
qed

lemma BandedAlignmentWithBackTrack_returns:
  assumes "float_ok mr" "float_ok mmp" "float_ok indp" and "length s + length t < frames"
  shows "\<exists>score s_align t_align.
           BandedAlignmentWithBackTrack frames mr mmp indp bp s t = Inr (score, s_align, t_align)"
proof -
  obtain l b where lb: "bt_fill mr mmp indp bp s t = Inr (l, b)"
    using bt_fill_returns [OF assms(1,2,3)] by blast
  have "nat (int (length s) - 1 + 1) + nat (int (length t) - 1 + 1) < frames"
    using assms(4) by simp
  then obtain s_align t_align where
    "backtrack frames b s t (int (length s) - 1) (int (length t) - 1) bp = Inr (s_align, t_align)"
    using backtrack_returns by blast
  then show ?thesis by (simp add: BandedAlignmentWithBackTrack_def lb)
qed

lemma fill_inv_next_row: "fill_inv H m l i (Suc m) \<Longrightarrow> fill_inv H m l (Suc i) 0"
  unfolding fill_inv_def filled_def by (auto simp: less_Suc_eq)

lemma fill_row:
  assumes step: "\<And>st st' j. j \<le> m \<Longrightarrow> fill_inv H m (get st) i j \<Longrightarrow> cell j st = Inr st'
                   \<Longrightarrow> fill_inv H m (get st') i (Suc j)"
    and "fill_inv H m (get st) i 0" and "k \<le> Suc m"
    and "fold_err cell [0..<k] st = Inr st'"
  shows "fill_inv H m (get st') i k"
  using assms(3,4)
proof (induction k arbitrary: st')
  case 0
  then show ?case using assms(2) by simp
next
  case (Suc k)
  have "fold_err cell ([0..<k] @ [k]) st = Inr st'" using Suc.prems(2) by simp
  then obtain st1 where st1: "fold_err cell [0..<k] st = Inr st1" "cell k st1 = Inr st'"
    using fold_err_snoc_Inr by fastforce
  have "fill_inv H m (get st1) i k" using Suc.IH [OF _ st1(1)] Suc.prems(1) by simp
  then show ?case using step [of k st1 st'] st1(2) Suc.prems(1) by simp
qed

lemma fill_rows:
  assumes step: "\<And>st st' i j. i \<le> n \<Longrightarrow> j \<le> m \<Longrightarrow> fill_inv H m (get st) i j
                   \<Longrightarrow> cell i j st = Inr st' \<Longrightarrow> fill_inv H m (get st') i (Suc j)"
    and init: "get st0 = (\<lambda>_. None)"
    and "k \<le> Suc n"
    and "fold_err (\<lambda>i. fold_err (cell i) [0..<m + 1]) [0..<k] st0 = Inr st'"
  shows "fill_inv H m (get st') k 0"
proof -
  define row where "row = (\<lambda>i. fold_err (cell i) [0..<m + 1])"
  have "fold_err row [0..<k] st0 = Inr st' \<Longrightarrow> fill_inv H m (get st') k 0"
    using assms(3)
  proof (induction k arbitrary: st')
    case 0
    then have "st' = st0" by simp
    then show ?case by (simp add: init fill_inv_def filled_def)
  next
    case (Suc k)
    have k: "k \<le> n" using Suc.prems by simp
    have "fold_err row ([0..<k] @ [k]) st0 = Inr st'" using Suc.prems(1) by simp
    then obtain st1 where st1: "fold_err row [0..<k] st0 = Inr st1" "row k st1 = Inr st'"
      using fold_err_snoc_Inr by fastforce
    have prev: "fill_inv H m (get st1) k 0" using Suc.IH [OF st1(1)] k by simp
    have r: "fold_err (cell k) [0..<Suc m] st1 = Inr st'"
      using st1(2) by (simp only: row_def Suc_eq_plus1)
    have "fill_inv H m (get st') k (Suc m)"
    proof (rule fill_row [where cell = "cell k" and get = get and H = H and i = k and st = st1])
      show "\<And>st st' j. j \<le> m \<Longrightarrow> fill_inv H m (get st) k j \<Longrightarrow> cell k j st = Inr st'
              \<Longrightarrow> fill_inv H m (get st') k (Suc j)"
        using step [OF k] by blast
      show "fill_inv H m (get st1) k 0" by (rule prev)
      show "Suc m \<le> Suc m" by simp
      show "fold_err (cell k) [0..<Suc m] st1 = Inr st'" by (rule r)
    qed
    then show ?case by (rule fill_inv_next_row)
  qed
  then show ?thesis using assms(4) by (simp only: row_def)
qed

lemma fill_result:
  assumes step: "\<And>st st' i j. i \<le> n \<Longrightarrow> j \<le> m \<Longrightarrow> fill_inv H m (get st) i j
                   \<Longrightarrow> cell i j st = Inr st' \<Longrightarrow> fill_inv H m (get st') i (Suc j)"
    and init: "get st0 = (\<lambda>_. None)"
    and res: "fold_err (\<lambda>i. fold_err (cell i) [0..<m + 1]) [0..<n + 1] st0 = Inr st'"
    and "i \<le> n" "j \<le> m"
  shows "get st' (i, j) = H i j"
proof -
  have le: "Suc n \<le> Suc n" by simp
  have res': "fold_err (\<lambda>i. fold_err (cell i) [0..<m + 1]) [0..<Suc n] st0 = Inr st'"
    using res by (simp only: Suc_eq_plus1)
  have "fill_inv H m (get st') (Suc n) 0"
    using step init le res' by (rule fill_rows)
  then show ?thesis
    using assms(4,5) unfolding fill_inv_def filled_def by auto
qed

text \<open>Helpers on the order of scores.\<close>

lemma score_plus_Some [simp]: "score_plus (Some v) d = Some (v + d)"
  by (simp add: score_plus_def)

lemma score_plus_None [simp]: "score_plus None d = None"
  by (simp add: score_plus_def)

lemma max3_ge1: "a \<le> max3 a b c" and max3_ge2: "b \<le> max3 a b c" and max3_ge3: "c \<le> max3 a b c"
  by (simp_all add: max3_def max.coboundedI1 max.coboundedI2)

lemma bt_cell_step:
  assumes "j \<le> length t"
    and inv: "fill_inv (bt_H mr mmp indp bp s t) (length t) (fst lb) i j"
    and res: "bt_cell mr mmp indp bp s t i j lb = Inr lb'"
  shows "fill_inv (bt_H mr mmp indp bp s t) (length t) (fst lb') i (Suc j)"
proof -
  let ?l = "fst lb"
  have rd: "\<And>c. filled (length t) i j c \<Longrightarrow> ?l c = bt_H mr mmp indp bp s t (fst c) (snd c)"
    and un: "\<And>c. \<not> filled (length t) i j c \<Longrightarrow> ?l c = None"
    using inv unfolding fill_inv_def by auto
  have fl: "\<And>c. filled (length t) i (Suc j) c \<longleftrightarrow> filled (length t) i j c \<or> c = (i, j)"
    using assms(1) by (auto simp: filled_def)
  have nf: "\<not> filled (length t) i j (i, j)" by (simp add: filled_def)
  have cur: "fst lb' (i, j) = bt_H mr mmp indp bp s t i j"
  proof (cases i)
    case 0
    then show ?thesis using res by (auto simp: bt_cell_def Let_def)
  next
    case (Suc i')
    show ?thesis
    proof (cases j)
      case 0
      then show ?thesis using Suc res by (auto simp: bt_cell_def Let_def)
    next
      case (Suc j')
      have "?l (i', j) = bt_H mr mmp indp bp s t i' j"
        "?l (i, j') = bt_H mr mmp indp bp s t i j'"
        "?l (i', j') = bt_H mr mmp indp bp s t i' j'"
        using assms(1) Suc \<open>i = Suc i'\<close> by (simp_all add: rd filled_def)
      then show ?thesis
        using Suc \<open>i = Suc i'\<close> un [OF nf] res
        by (auto simp: bt_cell_def Let_def split: sum.splits if_splits dest!: score_add_Inr)
    qed
  qed
  have oth: "\<And>c. c \<noteq> (i, j) \<Longrightarrow> fst lb' c = ?l c"
    using res by (auto simp: bt_cell_def Let_def split: sum.splits if_splits)
  show ?thesis
    unfolding fill_inv_def
  proof
    fix c
    show "fst lb' c
        = (if filled (length t) i (Suc j) c then bt_H mr mmp indp bp s t (fst c) (snd c) else None)"
    proof (cases "c = (i, j)")
      case True
      then show ?thesis using cur fl by simp
    next
      case False
      then show ?thesis using oth [OF False] fl rd un by (cases "filled (length t) i j c") simp_all
    qed
  qed
qed

lemma bt_fill_H:
  assumes "bt_fill mr mmp indp bp s t = Inr (l, b)" and "i \<le> length s" "j \<le> length t"
  shows "l (i, j) = bt_H mr mmp indp bp s t i j"
proof -
  have "fst (l, b) (i, j) = bt_H mr mmp indp bp s t i j"
  proof (rule fill_result [where get = fst and cell = "bt_cell mr mmp indp bp s t"
      and m = "length t" and n = "length s" and ?st0.0 = "(\<lambda>_. None, \<lambda>_. None)"])
    show "\<And>st st' i j. i \<le> length s \<Longrightarrow> j \<le> length t
        \<Longrightarrow> fill_inv (bt_H mr mmp indp bp s t) (length t) (fst st) i j
        \<Longrightarrow> bt_cell mr mmp indp bp s t i j st = Inr st'
        \<Longrightarrow> fill_inv (bt_H mr mmp indp bp s t) (length t) (fst st') i (Suc j)"
      using bt_cell_step by blast
    show "fst (\<lambda>_. None, \<lambda>_. None) = (\<lambda>_. None)" by simp
    show "fold_err (\<lambda>i. fold_err (bt_cell mr mmp indp bp s t i) [0..<length t + 1])
        [0..<length s + 1] (\<lambda>_. None, \<lambda>_. None) = Inr (l, b)"
      using assms(1) by (simp only: bt_fill_def)
    show "i \<le> length s" "j \<le> length t" by (rule assms)+
  qed
  then show ?thesis by simp
qed

lemma BandedAlignmentWithBackTrack_score:
  assumes "BandedAlignmentWithBackTrack frames mr mmp indp bp s t = Inr (score, s_align, t_align)"
  shows "score = bt_H mr mmp indp bp s t (length s) (length t)"
proof -
  obtain l b where lb: "bt_fill mr mmp indp bp s t = Inr (l, b)"
    and sc: "score = l (length s, length t)"
    using assms by (auto simp: BandedAlignmentWithBackTrack_def split: sum.splits)
  show ?thesis using bt_fill_H [OF lb, of "length s" "length t"] sc by simp
qed

text \<open>Cells inside the band of the backtrace matrix are finite.\<close>

lemma bt_H_finite:
  "\<bar>int j - int i\<bar> < bp \<Longrightarrow> bt_H mr mmp indp bp s t i j \<noteq> None"
proof (induction mr mmp indp bp s t i j rule: bt_H.induct)
  case (3 mr mmp indp bp s t i j)
  have "\<bar>int j - int i\<bar> < bp" using "3.prems" by simp
  then obtain v where v: "bt_H mr mmp indp bp s t i j = Some v"
    using "3.IH"(3) "3.prems" by auto
  have "score_plus (bt_H mr mmp indp bp s t i j) (if s ! i = t ! j then mr else - mmp)
      \<le> bt_H mr mmp indp bp s t (Suc i) (Suc j)"
    using "3.prems" by (simp add: max3_ge3)
  then show ?case
    by (cases "bt_H mr mmp indp bp s t (Suc i) (Suc j)") (simp_all add: v del: bt_H.simps)
qed simp_all

lemma bt_H_None_iff:
  "bt_H mr mmp indp bp s t i j = None \<longleftrightarrow> 0 < i \<and> 0 < j \<and> \<not> \<bar>int j - int i\<bar> < bp"
proof (cases "\<bar>int j - int i\<bar> < bp")
  case True
  then show ?thesis using bt_H_finite [OF True] by simp
next
  case False
  then show ?thesis by (cases i; cases j) simp_all
qed

subsection \<open>The seed scan\<close>


lemma seed_scan_flat:
  "seed_scan ref read seed_idxes mr mmp indp bw m
     = fold_err (\<lambda>c. seed_step ref read mr mmp indp bw m (fst c) (snd c)) (candidates seed_idxes)
         (None, - 1, - 1)"
  by (simp add: seed_scan_def candidates_def fold_err_concat fold_err_map)






lemma seed_scan_empty:
  assumes "list_all (\<lambda>l. l = []) seed_idxes"
  shows "seed_scan ref read seed_idxes mr mmp indp bw m = Inr (None, - 1, - 1)"
proof -
  have "candidates seed_idxes = []"
    using assms by (auto simp: candidates_def list_all_length)
  then show ?thesis by (simp add: seed_scan_flat)
qed

lemma compute_max_seed_None_iff:
  "compute_max_seed frames ref read seed_idxes mr mmp indp bw m = Inr None \<longleftrightarrow> seed_idxes = []"
  by (auto simp: compute_max_seed_def Let_def split: sum.splits prod.splits)


section \<open>The claims about the alignment engine and the seed-extension driver\<close>

text \<open>
  The stack limit also bounds the inputs from below: with both strings at least as long
  as the number of frames left, the backtrace raises \<^verbatim>\<open>RecursionError\<close> and
  \<open>BandedAlignmentWithBackTrack\<close> returns nothing.
\<close>

lemma BandedAlignmentWithBackTrack_raises:
  assumes "float_ok mr" "float_ok mmp" "float_ok indp"
    and "frames \<le> length s" "frames \<le> length t"
  shows "BandedAlignmentWithBackTrack frames mr mmp indp bp s t = Inl RecursionError"
proof -
  obtain l b where lb: "bt_fill mr mmp indp bp s t = Inr (l, b)"
    using bt_fill_returns [OF assms(1,2,3)] by blast
  have "frames \<le> nat (min (int (length s) - 1) (int (length t) - 1) + 1)"
    using assms(4,5) by simp
  then have "backtrack frames b s t (int (length s) - 1) (int (length t) - 1) bp
      = Inl RecursionError"
    by (rule backtrack_raises)
  then show ?thesis by (simp add: BandedAlignmentWithBackTrack_def lb)
qed




text \<open>
  Claim C9, as the code has it. Whenever \<open>BandedAlignmentWithBackTrack\<close> returns, its
  score is minus infinity exactly when both strings are non-empty and their lengths
  differ by at least the band width. The function has no branch for that case: it
  returns what \<open>backtrack\<close> builds, two non-empty strings of equal length. It returns when
  the three scoring parameters can be converted to a double and the two strings together
  have fewer characters than frames are left on the stack.
\<close>

theorem minus_infinity_still_backtracks:
  "(BandedAlignmentWithBackTrack frames mr mmp indp bp s t = Inr (score, s_align, t_align)
      \<longrightarrow> (score = None \<longleftrightarrow> s \<noteq> [] \<and> t \<noteq> [] \<and> bp \<le> \<bar>int (length t) - int (length s)\<bar>)
        \<and> (score = None
             \<longrightarrow> s_align \<noteq> [] \<and> t_align \<noteq> [] \<and> length s_align = length t_align))
   \<and> (float_ok mr \<and> float_ok mmp \<and> float_ok indp \<and> length s + length t < frames
        \<longrightarrow> (\<exists>score s_align t_align.
               BandedAlignmentWithBackTrack frames mr mmp indp bp s t
                 = Inr (score, s_align, t_align)))"
proof -
  have part: "(score = None \<longleftrightarrow> s \<noteq> [] \<and> t \<noteq> [] \<and> bp \<le> \<bar>int (length t) - int (length s)\<bar>)
        \<and> (score = None \<longrightarrow> s_align \<noteq> [] \<and> t_align \<noteq> [] \<and> length s_align = length t_align)"
    if res: "BandedAlignmentWithBackTrack frames mr mmp indp bp s t = Inr (score, s_align, t_align)"
  proof -
    have iff: "score = None \<longleftrightarrow> s \<noteq> [] \<and> t \<noteq> [] \<and> bp \<le> \<bar>int (length t) - int (length s)\<bar>"
      using BandedAlignmentWithBackTrack_score [OF res] by (simp add: bt_H_None_iff not_less)
    have len: "length s_align = length t_align"
      using BandedAlignmentWithBackTrack_strip [OF res] by simp
    have ne: "s_align \<noteq> [] \<and> t_align \<noteq> []" if "s \<noteq> []" "t \<noteq> []"
      using BandedAlignmentWithBackTrack_nonempty [OF res that] .
    show ?thesis using iff len ne by blast
  qed
  have tot: "\<exists>score s_align t_align.
      BandedAlignmentWithBackTrack frames mr mmp indp bp s t = Inr (score, s_align, t_align)"
    if "float_ok mr \<and> float_ok mmp \<and> float_ok indp \<and> length s + length t < frames"
    using that by (intro BandedAlignmentWithBackTrack_returns) simp_all
  show ?thesis using part tot by blast
qed

theorem minus_infinity_still_backtracks_witness:
  "BandedAlignmentWithBackTrack 1000 1 1 1 1 ''A'' ''AAA'' = Inr (None, ''--A'', ''AAA'')
   \<and> float_ok 1 \<and> length ''A'' + length ''AAA'' < (1000 :: nat)
   \<and> ''A'' \<noteq> [] \<and> ''AAA'' \<noteq> [] \<and> (1 :: int) \<le> \<bar>int (length ''AAA'') - int (length ''A'')\<bar>
   \<and> ''--A'' \<noteq> [] \<and> ''AAA'' \<noteq> [] \<and> length ''--A'' = length ''AAA''"
proof -
  have h: "BandedAlignmentWithBackTrack 1000 1 1 1 1 ''A'' ''AAA'' = Inr (None, ''--A'', ''AAA'')"
    by code_simp
  have f: "float_ok 1" by (rule float_ok_small) simp
  show ?thesis
    using minus_infinity_still_backtracks [of 1000 1 1 1 1 "''A''" "''AAA''" None "''--A''" "''AAA''"]
      h f
    by simp
qed

text \<open>
  Claim C9 as it is worded: with band width 1 the corner cell for \<open>''A''\<close> against
  \<open>''AAA''\<close> is minus infinity, and the function returns the strings \<open>--A\<close> and \<open>AAA\<close>
  with it, not two empty strings.
\<close>

theorem minus_infinity_counterexample:
  "BandedAlignmentWithBackTrack 1000 1 1 1 1 ''A'' ''AAA'' = Inr (None, ''--A'', ''AAA'')
   \<and> BandedAlignmentWithBackTrack 1000 1 1 1 1 ''A'' ''AAA'' \<noteq> Inr (None, '''', '''')"
proof -
  have "BandedAlignmentWithBackTrack 1000 1 1 1 1 ''A'' ''AAA'' = Inr (None, ''--A'', ''AAA'')"
    by code_simp
  then show ?thesis by simp
qed

text \<open>
  Claim C5 fails on the code. \<open>banded_alignment\<close> writes a border cell only inside the
  band, while \<open>BandedAlignmentWithBackTrack\<close> writes every border cell before it tests
  the band. With band width 1, mismatch penalty 5 and indel penalty 1, \<open>''A''\<close> against
  \<open>''C''\<close> scores \<open>-5\<close> in \<open>banded_alignment\<close> and \<open>-2\<close> in
  \<open>BandedAlignmentWithBackTrack\<close>, whose alignment \<open>-A\<close> over \<open>C-\<close> leaves the band. With
  an empty first string and a second string as long as the band is wide, the former
  returns minus infinity and the latter \<open>-2\<close>.
\<close>

theorem banded_scores_disagree:
  "banded_alignment 1 5 1 1 ''A'' ''C'' = Inr (Some (- 5))
   \<and> BandedAlignmentWithBackTrack 1000 1 5 1 1 ''A'' ''C'' = Inr (Some (- 2), ''-A'', ''C-'')
   \<and> banded_alignment 1 1 1 1 '''' ''AA'' = Inr None
   \<and> BandedAlignmentWithBackTrack 1000 1 1 1 1 '''' ''AA'' = Inr (Some (- 2), ''--'', ''AA'')"
proof -
  have "banded_alignment 1 5 1 1 ''A'' ''C'' = Inr (Some (- 5))" by code_simp
  moreover have "BandedAlignmentWithBackTrack 1000 1 5 1 1 ''A'' ''C''
      = Inr (Some (- 2), ''-A'', ''C-'')"
    by code_simp
  moreover have "banded_alignment 1 1 1 1 '''' ''AA'' = Inr None" by code_simp
  moreover have "BandedAlignmentWithBackTrack 1000 1 1 1 1 '''' ''AA''
      = Inr (Some (- 2), ''--'', ''AA'')"
    by code_simp
  ultimately show ?thesis by simp
qed

text \<open>
  The two functions also differ in their arithmetic: \<open>banded_alignment\<close> rounds to
  doubles, \<open>BandedAlignmentWithBackTrack\<close> computes with integers. An indel penalty of
  \<open>2^53 + 1\<close> is rounded to \<open>2^53\<close> by the former.
\<close>

lemma banded_alignment_rounds:
  "banded_alignment 1 1 9007199254740993 2 '''' ''A'' = Inr (Some (- 9007199254740992))
   \<and> BandedAlignmentWithBackTrack 1000 1 1 9007199254740993 2 '''' ''A''
       = Inr (Some (- 9007199254740993), ''-'', ''A'')"
proof -
  have "banded_alignment 1 1 9007199254740993 2 '''' ''A'' = Inr (Some (- 9007199254740992))"
    by code_simp
  moreover have "BandedAlignmentWithBackTrack 1000 1 1 9007199254740993 2 '''' ''A''
      = Inr (Some (- 9007199254740993), ''-'', ''A'')"
    by code_simp
  ultimately show ?thesis by simp
qed

text \<open>
  Claim C3, as the code has it. \<open>compute_max_seed\<close> returns \<open>None\<close> exactly when the seed
  list itself is empty. For a non-empty seed list whose per-offset lists are all empty the
  scan leaves its initial values, and the function goes on to the backtrace alignment of
  \<^verbatim>\<open>ref[0:read_length]\<close> against the read: when the three scoring parameters can be
  converted to a double and that window and the read together have fewer characters than
  frames are left on the stack, it returns position \<open>-1\<close>, score minus infinity, and the
  two aligned strings.
\<close>

theorem no_seed_hits:
  "(compute_max_seed frames ref read seed_idxes mr mmp indp bw read_length = Inr None
      \<longleftrightarrow> seed_idxes = [])
   \<and> (seed_idxes \<noteq> [] \<and> list_all (\<lambda>l. l = []) seed_idxes
      \<and> float_ok mr \<and> float_ok mmp \<and> float_ok indp
      \<and> length (py_slice ref 0 read_length) + length read < frames
      \<longrightarrow> (\<exists>score s_align t_align.
             BandedAlignmentWithBackTrack frames mr mmp indp bw (py_slice ref 0 read_length) read
               = Inr (score, s_align, t_align)
           \<and> compute_max_seed frames ref read seed_idxes mr mmp indp bw read_length
               = Inr (Some (- 1, None, s_align, t_align))))"
proof (intro conjI impI)
  show "compute_max_seed frames ref read seed_idxes mr mmp indp bw read_length = Inr None
      \<longleftrightarrow> seed_idxes = []"
    by (rule compute_max_seed_None_iff)
next
  assume a: "seed_idxes \<noteq> [] \<and> list_all (\<lambda>l. l = []) seed_idxes
      \<and> float_ok mr \<and> float_ok mmp \<and> float_ok indp
      \<and> length (py_slice ref 0 read_length) + length read < frames"
  then obtain score s_align t_align where
    bt: "BandedAlignmentWithBackTrack frames mr mmp indp bw (py_slice ref 0 read_length) read
           = Inr (score, s_align, t_align)"
    using BandedAlignmentWithBackTrack_returns
      [of mr mmp indp "py_slice ref 0 read_length" read frames bw]
    by blast
  have scan: "seed_scan ref read seed_idxes mr mmp indp bw read_length = Inr (None, - 1, - 1)"
    using a by (intro seed_scan_empty) simp
  have "compute_max_seed frames ref read seed_idxes mr mmp indp bw read_length
      = Inr (Some (- 1, None, s_align, t_align))"
    using a by (simp add: compute_max_seed_def scan bt)
  then show "\<exists>score s_align t_align.
      BandedAlignmentWithBackTrack frames mr mmp indp bw (py_slice ref 0 read_length) read
        = Inr (score, s_align, t_align)
      \<and> compute_max_seed frames ref read seed_idxes mr mmp indp bw read_length
        = Inr (Some (- 1, None, s_align, t_align))"
    using bt by blast
qed

theorem no_seed_hits_witness:
  "compute_max_seed 1000 ''AAAA'' ''GGGG'' [] 1 1 1 2 4 = Inr None
   \<and> [[], [], []] \<noteq> ([] :: int list list) \<and> list_all (\<lambda>l. l = []) [[], [], [] :: int list]
   \<and> float_ok 1 \<and> length (py_slice ''AAAA'' 0 4) + length ''GGGG'' < (1000 :: nat)
   \<and> (\<exists>score s_align t_align.
         BandedAlignmentWithBackTrack 1000 1 1 1 2 (py_slice ''AAAA'' 0 4) ''GGGG''
           = Inr (score, s_align, t_align)
       \<and> compute_max_seed 1000 ''AAAA'' ''GGGG'' [[], [], []] 1 1 1 2 4
           = Inr (Some (- 1, None, s_align, t_align)))"
proof -
  have f: "float_ok 1" by (rule float_ok_small) simp
  have l: "length (py_slice ''AAAA'' 0 4) + length ''GGGG'' < (1000 :: nat)"
    by (simp add: py_slice_def)
  show ?thesis
    using no_seed_hits [of 1000 "''AAAA''" "''GGGG''" "[]" 1 1 1 2 4]
      no_seed_hits [of 1000 "''AAAA''" "''GGGG''" "[[], [], []]" 1 1 1 2 4] f l
    by simp
qed

text \<open>
  Claim C3 as it is worded: for the reference \<open>AAAA\<close>, the read \<open>GGGG\<close> and three empty
  per-offset lists, the function returns a tuple, not \<open>None\<close>.
\<close>

theorem no_seed_hits_counterexample:
  "list_all (\<lambda>l. l = []) [[], [], [] :: int list]
   \<and> compute_max_seed 1000 ''AAAA'' ''GGGG'' [[], [], []] 1 1 1 2 4
       = Inr (Some (- 1, None, ''AAAA'', ''GGGG''))"
proof -
  have "compute_max_seed 1000 ''AAAA'' ''GGGG'' [[], [], []] 1 1 1 2 4
      = Inr (Some (- 1, None, ''AAAA'', ''GGGG''))"
    by code_simp
  then show ?thesis by simp
qed




section \<open>The sampled suffix array\<close>

lemma psa_loop_spec:
  assumes "set xs \<subseteq> {..<length sa}" and "0 < k"
  shows "psa_loop sa k xs partial
     = Inr (\<lambda>i. if i \<in> set xs \<and> sa ! i mod k = 0 then Some (sa ! i) else partial i)"
  using assms(1)
proof (induction xs arbitrary: partial)
  case Nil
  then show ?case by simp
next
  case (Cons idx rest)
  have idx: "idx < length sa" and rest: "set rest \<subseteq> {..<length sa}"
    using Cons.prems by auto
  show ?case
    using idx assms(2) by (auto simp: Cons.IH [OF rest] fun_eq_iff)
qed

text \<open>
  Claim C6. For a suffix array that is a permutation of \<open>[0, n)\<close> and a stride \<open>k \<ge> 1\<close>,
  the loop of \<open>partial_suffix_array\<close>, which uses the values of \<open>sa\<close> as indices into
  \<open>sa\<close>, raises no error and returns exactly the documented mapping: row \<open>i\<close> is mapped
  to \<open>sa[i]\<close> when \<open>sa[i] mod k = 0\<close>, and is absent otherwise.
\<close>

theorem partial_suffix_array_refines_spec:
  assumes "mset sa = mset [0..<n]" and "1 \<le> k"
  shows "partial_suffix_array sa k = Inr (psa_spec sa k)"
proof -
  have len: "length sa = n"
    using assms(1) by (metis length_upt mset_eq_length minus_nat.diff_0)
  have set: "set sa = {..<n}"
    using assms(1) by (metis atLeast_upt mset_eq_setD)
  have "partial_suffix_array sa k
      = Inr (\<lambda>i. if i \<in> set sa \<and> sa ! i mod k = 0 then Some (sa ! i) else None)"
    unfolding partial_suffix_array_def using assms(2) set len
    by (intro psa_loop_spec) auto
  also have "\<dots> = Inr (psa_spec sa k)"
    by (simp add: psa_spec_def set len fun_eq_iff)
  finally show ?thesis .
qed

theorem partial_suffix_array_refines_spec_witness:
  "mset [2, 0, 1] = mset [0..<3] \<and> (1 :: nat) \<le> 2
   \<and> partial_suffix_array [2, 0, 1] 2 = Inr (psa_spec [2, 0, 1] 2)
   \<and> psa_spec [2, 0, 1] 2 0 = Some 2 \<and> psa_spec [2, 0, 1] 2 1 = Some 0
   \<and> psa_spec [2, 0, 1] 2 2 = None"
proof -
  have p: "mset [2, 0, 1] = mset [0..<3]"
    by (simp add: upt_rec numeral_3_eq_3)
  have k: "(1 :: nat) \<le> 2" by simp
  show ?thesis
    using partial_suffix_array_refines_spec [OF p k] p
    by (simp add: psa_spec_def)
qed

section \<open>Correctness of the suffix array construction\<close>

lemma fold_upt_inv:
  assumes "P a st"
    and "\<And>i st. a \<le> i \<Longrightarrow> i < b \<Longrightarrow> P i st \<Longrightarrow> P (Suc i) (f i st)"
    and "a \<le> b"
  shows "P b (fold f [a..<b] st)"
  using assms(3,2)
proof (induction b)
  case 0
  then show ?case using assms(1) by simp
next
  case (Suc b)
  show ?case
  proof (cases "a = Suc b")
    case True
    then show ?thesis using assms(1) by simp
  next
    case False
    then have ab: "a \<le> b" using Suc.prems(1) by simp
    have "P b (fold f [a..<b] st)"
      using ab Suc.prems(2) by (intro Suc.IH) auto
    then have "P (Suc b) (f b (fold f [a..<b] st))"
      using ab by (intro Suc.prems(2)) auto
    then show ?thesis using ab by simp
  qed
qed

lemma assign_inv_step:
  assumes "1 \<le> i" "i < length S" "assign_inv S i st"
  shows "assign_inv S (Suc i) (assign_rank_step i st)"
proof -
  obtain S' ind' rank prev_rank where st: "st = (S', ind', rank, prev_rank)"
    by (cases st) auto
  obtain i' where i': "i = Suc i'" using assms(1) by (cases i) auto
  have len: "length S' = length S"
    and el: "\<And>p. p < length S \<Longrightarrow> index (S' ! p) = index (S ! p) \<and> rank1 (S' ! p) = rank1 (S ! p)
            \<and> rank0 (S' ! p) = (if p < i then chg S p else rank0 (S ! p))"
    and rk: "rank = chg S i'" and pr: "prev_rank = rank0 (S ! i')"
    using assms(3) by (auto simp: assign_inv_def st i')
  have cond: "(rank0 (S' ! i) = prev_rank \<and> rank1 (S' ! i) = rank1 (S' ! (i - 1)))
      \<longleftrightarrow> key (S ! Suc i') = key (S ! i')"
    using el [of i] el [of i'] assms(2) by (auto simp: key_def pr i')
  show ?thesis
  proof (cases "key (S ! Suc i') = key (S ! i')")
    case True
    then have step: "assign_rank_step i st
        = (S'[i := (S' ! i)\<lparr>rank0 := rank\<rparr>], ind'[index (S' ! i) := i], rank, rank0 (S' ! i))"
      using cond by (simp add: assign_rank_step_def st)
    show ?thesis
      unfolding step assign_inv_def
      using True el assms(2) len rk
      by (auto simp: nth_list_update i' less_Suc_eq)
  next
    case False
    then have step: "assign_rank_step i st
        = (S'[i := (S' ! i)\<lparr>rank0 := rank + 1\<rparr>], ind'[index (S' ! i) := i], rank + 1, rank0 (S' ! i))"
      using cond by (simp add: assign_rank_step_def st)
    show ?thesis
      unfolding step assign_inv_def
      using False el assms(2) len rk
      by (auto simp: nth_list_update i' less_Suc_eq)
  qed
qed

lemma ind_inv_step:
  assumes "i < length S" "ind_inv S m i st" "distinct (map index S)"
    "\<forall>p < length S. index (S ! p) < m"
  shows "ind_inv S m (Suc i) (assign_rank_step i st)"
proof -
  obtain S' ind' rank prev_rank where st: "st = (S', ind', rank, prev_rank)"
    by (cases st) auto
  have len: "length S' = length S" "length ind' = m"
    and ix: "\<And>p. p < length S \<Longrightarrow> index (S' ! p) = index (S ! p)"
    and old: "\<And>p. p < i \<Longrightarrow> ind' ! (index (S ! p)) = p"
    using assms(2) by (auto simp: ind_inv_def st)
  have ne: "\<And>p. p < i \<Longrightarrow> index (S ! p) \<noteq> index (S ! i)"
    using assms(1,3) by (auto simp: distinct_conv_nth)
  have "(ind'[index (S ! i) := i]) ! (index (S ! p)) = p" if "p < Suc i" for p
  proof (cases "p = i")
    case True
    then show ?thesis using assms(1,4) len by simp
  next
    case False
    then have "p < i" using that by simp
    then show ?thesis using old [of p] ne [of p] by simp
  qed
  then show ?thesis
    using len ix assms(1)
    by (auto simp: ind_inv_def st assign_rank_step_def nth_list_update)
qed

lemma assign_ranks_spec:
  assumes "0 < length S" "length S = length T" "distinct (map index S)"
    "\<forall>p < length S. index (S ! p) < length ind"
    and res: "assign_ranks T (S, ind) = (S', ind')"
  shows "length S' = length S \<and> length ind' = length ind
     \<and> (\<forall>p < length S. index (S' ! p) = index (S ! p) \<and> rank1 (S' ! p) = rank1 (S ! p)
           \<and> rank0 (S' ! p) = chg S p \<and> ind' ! (index (S ! p)) = p)"
proof -
  let ?S1 = "S[0 := (S ! 0)\<lparr>rank0 := 0\<rparr>]"
  let ?ind1 = "ind[index (?S1 ! 0) := 0]"
  let ?st1 = "(?S1, ?ind1, 0 :: int, rank0 (S ! 0))"
  let ?F = "fold assign_rank_step [1..<length S] ?st1"
  have a1: "assign_inv S 1 ?st1"
    using assms(1) by (auto simp: assign_inv_def nth_list_update)
  have i1: "ind_inv S (length ind) 1 ?st1"
    using assms(1,4) by (auto simp: ind_inv_def nth_list_update)
  have le: "1 \<le> length S" using assms(1) by (simp add: Suc_leI)
  have A: "assign_inv S (length S) ?F"
  proof (rule fold_upt_inv [where P = "assign_inv S"])
    show "assign_inv S 1 ?st1" by (rule a1)
    show "\<And>i st. 1 \<le> i \<Longrightarrow> i < length S \<Longrightarrow> assign_inv S i st
            \<Longrightarrow> assign_inv S (Suc i) (assign_rank_step i st)"
      by (rule assign_inv_step)
    show "1 \<le> length S" by (rule le)
  qed
  have I: "ind_inv S (length ind) (length S) ?F"
  proof (rule fold_upt_inv [where P = "ind_inv S (length ind)"])
    show "ind_inv S (length ind) 1 ?st1" by (rule i1)
    show "\<And>i st. 1 \<le> i \<Longrightarrow> i < length S \<Longrightarrow> ind_inv S (length ind) i st
            \<Longrightarrow> ind_inv S (length ind) (Suc i) (assign_rank_step i st)"
      using assms(3,4) by (intro ind_inv_step)
    show "1 \<le> length S" by (rule le)
  qed
  have F: "?F = (S', ind', fst (snd (snd ?F)), snd (snd (snd ?F)))"
    using res by (simp add: assign_ranks_def Let_def assms(2) [symmetric] split_beta prod_eq_iff)
  show ?thesis
    using A I unfolding assign_inv_def ind_inv_def
    by (subst (asm) (1 2) F) auto
qed

lemma next_inv_step:
  assumes "i < length S" "next_inv T k ind S i S'" "\<forall>j < length T. ind ! j < length S"
  shows "next_inv T k ind S (Suc i) (next_rank_step T k ind i S')"
proof -
  have len: "length S' = length S"
    and el: "\<And>p. p < length S \<Longrightarrow> index (S' ! p) = index (S ! p) \<and> rank0 (S' ! p) = rank0 (S ! p)"
    and r1: "\<And>p. p < length S \<Longrightarrow> rank1 (S' ! p) =
                (if p < i then
                   (if index (S ! p) + k div 2 < length T
                    then rank0 (S ! (ind ! (index (S ! p) + k div 2))) else - 1)
                 else rank1 (S ! p))"
    using assms(2) by (auto simp: next_inv_def)
  have rd: "index (S ! i) + k div 2 < length T \<Longrightarrow>
      rank0 (S' ! (ind ! (index (S ! i) + k div 2))) = rank0 (S ! (ind ! (index (S ! i) + k div 2)))"
    using assms(3) el by simp
  show ?thesis
    unfolding next_inv_def next_rank_step_def Let_def
    using len el r1 rd assms(1)
    by (auto simp: nth_list_update less_Suc_eq)
qed

lemma next_rank_spec:
  assumes "\<forall>j < length T. ind ! j < length S"
  shows "next_inv T k ind S (length S) (fold (next_rank_step T k ind) [0..<length S] S)"
proof (rule fold_upt_inv [where P = "next_inv T k ind S"])
  show "next_inv T k ind S 0 S" by (simp add: next_inv_def)
  show "\<And>i st. 0 \<le> i \<Longrightarrow> i < length S \<Longrightarrow> next_inv T k ind S i st
          \<Longrightarrow> next_inv T k ind S (Suc i) (next_rank_step T k ind i st)"
    using assms by (intro next_inv_step)
  show "0 \<le> length S" by simp
qed

lemma chg_mono: "p \<le> q \<Longrightarrow> chg S p \<le> chg S q"
proof (induction q)
  case (Suc q)
  then show ?case by (cases "p = Suc q") auto
qed simp

lemma chg_nonneg: "0 \<le> chg S p"
  using chg_mono [of 0 p S] by simp

lemma sorted_keys_nth:
  "sorted (map key S) \<Longrightarrow> p \<le> q \<Longrightarrow> q < length S \<Longrightarrow> key (S ! p) \<le> key (S ! q)"
  using sorted_nth_mono [of "map key S" p q] by simp

lemma chg_eq_iff:
  assumes "sorted (map key S)" "p \<le> q" "q < length S"
  shows "chg S p = chg S q \<longleftrightarrow> key (S ! p) = key (S ! q)"
  using assms(2,3)
proof (induction q)
  case 0
  then show ?case by simp
next
  case (Suc q)
  show ?case
  proof (cases "p = Suc q")
    case True
    then show ?thesis by simp
  next
    case False
    then have pq: "p \<le> q" "q < length S" using Suc.prems by simp_all
    have ih: "chg S p = chg S q \<longleftrightarrow> key (S ! p) = key (S ! q)" using Suc.IH pq by simp
    have m: "chg S p \<le> chg S q" using pq(1) by (rule chg_mono)
    have k1: "key (S ! p) \<le> key (S ! q)" using assms(1) pq by (intro sorted_keys_nth) simp_all
    have k2: "key (S ! q) \<le> key (S ! Suc q)"
      using assms(1) Suc.prems(2) by (intro sorted_keys_nth) simp_all
    show ?thesis
    proof (cases "key (S ! Suc q) = key (S ! q)")
      case True
      then show ?thesis using ih by simp
    next
      case False
      have "chg S p \<noteq> chg S (Suc q)" using m False by simp
      moreover have "key (S ! p) \<noteq> key (S ! Suc q)" using k1 k2 False by auto
      ultimately show ?thesis by simp
    qed
  qed
qed

lemma le_iff_transfer:
  fixes x y :: "'a::order" and u v :: "'b::order"
  assumes "x \<le> y" "u \<le> v" "x = y \<longleftrightarrow> u = v"
  shows "y \<le> x \<longleftrightarrow> v \<le> u"
proof
  assume "y \<le> x"
  then have "x = y" using assms(1) by (rule order.antisym [rotated])
  then show "v \<le> u" using assms(3) by simp
next
  assume "v \<le> u"
  then have "u = v" using assms(2) by (rule order.antisym [rotated])
  then show "y \<le> x" using assms(3) by simp
qed

lemma chg_le_iff:
  assumes "sorted (map key S)" "p < length S" "q < length S"
  shows "chg S p \<le> chg S q \<longleftrightarrow> key (S ! p) \<le> key (S ! q)"
proof (cases "p \<le> q")
  case True
  have "chg S p \<le> chg S q" using True by (rule chg_mono)
  moreover have "key (S ! p) \<le> key (S ! q)" using assms(1) True assms(3) by (rule sorted_keys_nth)
  ultimately show ?thesis by (simp only:)
next
  case False
  then have qp: "q \<le> p" by simp
  have "chg S q \<le> chg S p" using qp by (rule chg_mono)
  moreover have "key (S ! q) \<le> key (S ! p)" using assms(1) qp assms(2) by (rule sorted_keys_nth)
  moreover have "chg S q = chg S p \<longleftrightarrow> key (S ! q) = key (S ! p)"
    using assms(1) qp assms(2) by (rule chg_eq_iff)
  ultimately show ?thesis by (rule le_iff_transfer)
qed

lemma lex_append_le:
  fixes u1 u2 x y :: "'a::linorder list"
  assumes "length u1 < length u2 \<Longrightarrow> x = []" "length u2 < length u1 \<Longrightarrow> y = []"
  shows "u1 @ x \<le> u2 @ y \<longleftrightarrow> u1 < u2 \<or> (u1 = u2 \<and> x \<le> y)"
  using assms
proof (induction u1 arbitrary: u2)
  case Nil
  then show ?case by (cases u2) auto
next
  case (Cons a u1)
  show ?case
  proof (cases u2)
    case Nil
    then show ?thesis using Cons.prems by simp
  next
    case (Cons b u2')
    have "u1 @ x \<le> u2' @ y \<longleftrightarrow> u1 < u2' \<or> (u1 = u2' \<and> x \<le> y)"
      using Cons.prems Cons by (intro Cons.IH) auto
    then show ?thesis using Cons by auto
  qed
qed

lemma pre_double: "pre T (h + h) i = pre T h i @ pre T h (i + h)"
  by (simp add: pre_def take_add add.commute)

lemma length_pre: "length (pre T h i) = min h (length T - i)"
  by (simp add: pre_def)

lemma pre_beyond: "length T \<le> i \<Longrightarrow> pre T h i = []"
  by (simp add: pre_def)

lemma pre_nonempty: "i < length T \<Longrightarrow> 0 < h \<Longrightarrow> pre T h i \<noteq> []"
  by (simp add: pre_def)

lemma pre_whole: "length T \<le> h \<Longrightarrow> pre T h i = drop i T"
  by (simp add: pre_def)

lemma pre_double_le:
  "pre T (h + h) i \<le> pre T (h + h) j
     \<longleftrightarrow> pre T h i < pre T h j \<or> (pre T h i = pre T h j \<and> pre T h (i + h) \<le> pre T h (j + h))"
  unfolding pre_double
proof (rule lex_append_le)
  assume "length (pre T h i) < length (pre T h j)"
  then have "length T \<le> i + h" by (auto simp: length_pre)
  then show "pre T h (i + h) = []" by (rule pre_beyond)
next
  assume "length (pre T h j) < length (pre T h i)"
  then have "length T \<le> j + h" by (auto simp: length_pre)
  then show "pre T h (j + h) = []" by (rule pre_beyond)
qed

lemma doubling_keys:
  fixes r0 :: "nat \<Rightarrow> int"
  assumes r0: "\<And>i j. i < length T \<Longrightarrow> j < length T \<Longrightarrow> r0 i \<le> r0 j \<longleftrightarrow> pre T h i \<le> pre T h j"
    and sentinel: "\<And>i j. i < length T \<Longrightarrow> j < length T \<Longrightarrow> r0 i = r0 j
                     \<Longrightarrow> \<not> i + h < length T \<Longrightarrow> j + h < length T \<Longrightarrow> - 1 < r0 (j + h)"
    and h: "0 < h" and i: "i < length T" and j: "j < length T"
  shows "(r0 i, if i + h < length T then r0 (i + h) else - 1)
           \<le> (r0 j, if j + h < length T then r0 (j + h) else - 1)
         \<longleftrightarrow> pre T (h + h) i \<le> pre T (h + h) j"
proof -
  define r1 where "r1 = (\<lambda>i. if i + h < length T then r0 (i + h) else - 1)"
  have lt: "r0 i < r0 j \<longleftrightarrow> pre T h i < pre T h j"
    using r0 [OF j i] by (simp add: not_le [symmetric])
  have eq: "r0 i = r0 j \<longleftrightarrow> pre T h i = pre T h j"
    using r0 [OF i j] r0 [OF j i] by (auto simp: order.antisym)
  have snd: "r1 i \<le> r1 j \<longleftrightarrow> pre T h (i + h) \<le> pre T h (j + h)" if e: "r0 i = r0 j"
  proof (cases "i + h < length T")
    case False
    then have "pre T h (i + h) = []" by (simp add: pre_beyond)
    moreover have "r1 i \<le> r1 j"
      using False sentinel [OF i j e False] by (auto simp: r1_def)
    ultimately show ?thesis by simp
  next
    case True
    show ?thesis
    proof (cases "j + h < length T")
      case False
      then have "pre T h (j + h) = []" by (simp add: pre_beyond)
      moreover have "pre T h (i + h) \<noteq> []" using True h by (rule pre_nonempty)
      moreover have "\<not> r1 i \<le> r1 j"
        using True False sentinel [OF j i e [symmetric] False True] by (auto simp: r1_def)
      ultimately show ?thesis by simp
    next
      case jt: True
      show ?thesis using r0 [OF True jt] True jt by (simp add: r1_def)
    qed
  qed
  have "(r0 i, r1 i) \<le> (r0 j, r1 j) \<longleftrightarrow> r0 i < r0 j \<or> (r0 i = r0 j \<and> r1 i \<le> r1 j)"
    by auto
  also have "\<dots> \<longleftrightarrow> r0 i < r0 j \<or> (r0 i = r0 j \<and> pre T h (i + h) \<le> pre T h (j + h))"
    using snd by blast
  also have "\<dots> \<longleftrightarrow> pre T h i < pre T h j \<or> (pre T h i = pre T h j \<and> pre T h (i + h) \<le> pre T h (j + h))"
    by (simp only: lt eq)
  also have "\<dots> \<longleftrightarrow> pre T (h + h) i \<le> pre T (h + h) j"
    by (simp only: pre_double_le)
  finally show ?thesis by (simp only: r1_def)
qed

lemma perm_inv_length: "perm_inv T S \<Longrightarrow> length S = length T"
  unfolding perm_inv_def by (metis length_map length_upt mset_eq_length minus_nat.diff_0)

lemma perm_inv_distinct: "perm_inv T S \<Longrightarrow> distinct (map index S)"
  unfolding perm_inv_def by (metis distinct_upt mset_eq_imp_distinct_iff)

lemma perm_inv_set: "perm_inv T S \<Longrightarrow> set (map index S) = {..<length T}"
  unfolding perm_inv_def by (metis atLeast_upt mset_eq_setD)

lemma perm_inv_bound: "perm_inv T S \<Longrightarrow> p < length S \<Longrightarrow> index (S ! p) < length T"
  using perm_inv_set [of T S] by (metis lessThan_iff length_map nth_map nth_mem)

lemma perm_inv_pos:
  assumes "perm_inv T S" "i < length T"
  obtains p where "p < length S" "index (S ! p) = i"
proof -
  have "i \<in> set (map index S)" unfolding perm_inv_set [OF assms(1)] using assms(2) by simp
  then obtain p where "p < length (map index S)" "map index S ! p = i"
    by (metis in_set_conv_nth)
  then show ?thesis using that by simp
qed

lemma sort_suffixes_key: "sort_suffixes S = sort_key key S"
  by (simp add: sort_suffixes_def key_def [abs_def])

lemma perm_inv_sort: "perm_inv T (sort_suffixes S) = perm_inv T S"
  by (simp add: perm_inv_def sort_suffixes_key)

lemma sa_round_spec:
  assumes perm: "perm_inv T S" and ind: "length ind = length T" and n: "0 < length T"
    and res: "sa_round T k (S, ind) = (S1, ind1)"
  shows "perm_inv T S1 \<and> length ind1 = length T
       \<and> (0 < k div 2 \<longrightarrow> ord_inv T (k div 2) S \<longrightarrow> ord_inv T (k div 2 + k div 2) S1)"
proof -
  define h where "h = k div 2"
  obtain S' ind' where ar: "assign_ranks T (S, ind) = (S', ind')"
    by (cases "assign_ranks T (S, ind)") auto
  define S'' where "S'' = fold (next_rank_step T k ind') [0..<length T] S'"
  have S1: "S1 = sort_suffixes S''" and ind1: "ind1 = ind'"
    using res by (auto simp: sa_round_def ar S''_def)
  have len: "length S = length T" using perm by (rule perm_inv_length)
  have bound: "\<forall>p < length S. index (S ! p) < length ind"
    using perm ind by (simp add: perm_inv_bound)
  have A: "length S' = length S \<and> length ind' = length ind
     \<and> (\<forall>p < length S. index (S' ! p) = index (S ! p) \<and> rank1 (S' ! p) = rank1 (S ! p)
           \<and> rank0 (S' ! p) = chg S p \<and> ind' ! (index (S ! p)) = p)"
    using n len perm_inv_distinct [OF perm] bound ar
    by (intro assign_ranks_spec [where T = T]) simp_all
  have lenS': "length S' = length T" using A len by simp
  have pos: "ind' ! i < length T \<and> index (S ! (ind' ! i)) = i" if i: "i < length T" for i
  proof -
    obtain p where "p < length S" "index (S ! p) = i" using perm i by (rule perm_inv_pos)
    then show ?thesis using A len by auto
  qed
  have B: "next_inv T k ind' S' (length S') (fold (next_rank_step T k ind') [0..<length S'] S')"
    using pos lenS' by (intro next_rank_spec) simp
  have lenS'': "length S'' = length T"
    and el: "\<And>p. p < length T \<Longrightarrow> index (S'' ! p) = index (S ! p) \<and> rank0 (S'' ! p) = chg S p
        \<and> rank1 (S'' ! p) = (if index (S ! p) + h < length T
                              then chg S (ind' ! (index (S ! p) + h)) else - 1)"
  proof -
    show "length S'' = length T" using B lenS' by (simp add: next_inv_def S''_def)
    fix p assume p: "p < length T"
    have 1: "index (S'' ! p) = index (S' ! p) \<and> rank0 (S'' ! p) = rank0 (S' ! p)
        \<and> rank1 (S'' ! p) = (if index (S' ! p) + h < length T
             then rank0 (S' ! (ind' ! (index (S' ! p) + h))) else - 1)"
      using B lenS' p by (simp add: next_inv_def S''_def h_def)
    have 2: "index (S' ! p) = index (S ! p)" "rank0 (S' ! p) = chg S p"
      using A p len by simp_all
    have 3: "rank0 (S' ! (ind' ! (index (S ! p) + h))) = chg S (ind' ! (index (S ! p) + h))"
      if "index (S ! p) + h < length T"
      using pos [OF that] A len by simp
    show "index (S'' ! p) = index (S ! p) \<and> rank0 (S'' ! p) = chg S p
        \<and> rank1 (S'' ! p) = (if index (S ! p) + h < length T
                              then chg S (ind' ! (index (S ! p) + h)) else - 1)"
      using 1 2 3 by simp
  qed
  have "map index S'' = map index S"
    using lenS'' len el by (intro nth_equalityI) simp_all
  then have p'': "perm_inv T S''" using perm by (simp add: perm_inv_def)
  then have p1: "perm_inv T S1" by (simp add: S1 perm_inv_sort)
  have ord: "ord_inv T (h + h) S1" if h: "0 < h" and o: "ord_inv T h S"
  proof -
    define r0 where "r0 = (\<lambda>i. chg S (ind' ! i))"
    have srt: "sorted (map key S)" using o by (simp add: ord_inv_def)
    have cons: "\<And>p q. p < length T \<Longrightarrow> q < length T \<Longrightarrow>
        key (S ! p) \<le> key (S ! q) \<longleftrightarrow> pre T h (index (S ! p)) \<le> pre T h (index (S ! q))"
      using o len by (simp add: ord_inv_def)
    have r0: "r0 i \<le> r0 j \<longleftrightarrow> pre T h i \<le> pre T h j" if "i < length T" "j < length T" for i j
    proof -
      have "r0 i \<le> r0 j \<longleftrightarrow> key (S ! (ind' ! i)) \<le> key (S ! (ind' ! j))"
        unfolding r0_def using srt pos [OF that(1)] pos [OF that(2)] len
        by (intro chg_le_iff) simp_all
      also have "\<dots> \<longleftrightarrow> pre T h i \<le> pre T h j"
        using cons [of "ind' ! i" "ind' ! j"] pos [OF that(1)] pos [OF that(2)] by simp
      finally show ?thesis .
    qed
    have nn: "- 1 < r0 i" for i
      using chg_nonneg [of S "ind' ! i"] by (simp add: r0_def)
    have keyp: "key (S'' ! p) = (r0 (index (S'' ! p)),
        if index (S'' ! p) + h < length T then r0 (index (S'' ! p) + h) else - 1)"
      if "p < length T" for p
    proof -
      have "ind' ! (index (S ! p)) = p" using A that len by simp
      then show ?thesis using el [OF that] by (simp add: key_def r0_def)
    qed
    have pp: "key (S'' ! p) \<le> key (S'' ! q)
        \<longleftrightarrow> pre T (h + h) (index (S'' ! p)) \<le> pre T (h + h) (index (S'' ! q))"
      if "p < length T" "q < length T" for p q
    proof -
      have ip: "index (S'' ! p) < length T" "index (S'' ! q) < length T"
        using perm_inv_bound [OF p''] that lenS'' by simp_all
      show ?thesis
        unfolding keyp [OF that(1)] keyp [OF that(2)]
        using r0 nn h ip by (rule doubling_keys)
    qed
    have "key a \<le> key b \<longleftrightarrow> pre T (h + h) (index a) \<le> pre T (h + h) (index b)"
      if "a \<in> set S1" "b \<in> set S1" for a b
    proof -
      have "a \<in> set S''" "b \<in> set S''" using that by (simp_all add: S1 sort_suffixes_key)
      then obtain p q where "p < length T" "a = S'' ! p" "q < length T" "b = S'' ! q"
        using lenS'' by (metis in_set_conv_nth)
      then show ?thesis using pp by simp
    qed
    moreover have "sorted (map key S1)" by (simp add: S1 sort_suffixes_key sorted_sort_key)
    ultimately show ?thesis by (simp add: ord_inv_def)
  qed
  show ?thesis using p1 ind1 A ind ord by (simp add: h_def)
qed

lemma get_rank_le: "get_rank c \<le> get_rank d \<longleftrightarrow> c \<le> d"
  by (simp add: get_rank_def less_eq_char_def)

lemma get_rank_eq: "get_rank c = get_rank d \<longleftrightarrow> c = d"
  by (simp add: get_rank_def)

lemma get_rank_sentinel: "CHR ''a'' \<le> c \<Longrightarrow> - 1 < get_rank c"
  by (simp add: get_rank_def less_eq_char_def)

lemma pre_one: "i < length T \<Longrightarrow> pre T 1 i = [T ! i]"
  by (simp add: pre_def take_Suc_conv_app_nth Cons_nth_drop_Suc [symmetric])

lemma pre_Suc0: "i < length T \<Longrightarrow> pre T (Suc 0) i = [T ! i]"
  using pre_one [of i T] by simp

lemma butlast_mem: "j + 1 < length T \<Longrightarrow> T ! j \<in> set (butlast T)"
  by (metis Suc_eq_plus1 length_butlast less_diff_conv nth_butlast nth_mem)

lemma perm_inv_initial: "perm_inv T (sort_suffixes (initial_suffixes T))"
  by (simp add: perm_inv_sort) (simp add: perm_inv_def initial_suffixes_def comp_def)

lemma ord_inv_initial:
  assumes "sa_input_ok T"
  shows "ord_inv T 2 (sort_suffixes (initial_suffixes T))"
proof -
  define r0 where "r0 = (\<lambda>i. get_rank (T ! i))"
  have r0: "r0 i \<le> r0 j \<longleftrightarrow> pre T 1 i \<le> pre T 1 j" if "i < length T" "j < length T" for i j
    using that by (auto simp: r0_def pre_Suc0 get_rank_le)
  have sentinel: "- 1 < r0 (j + 1)"
    if "i < length T" "j < length T" "r0 i = r0 j" "\<not> i + 1 < length T" "j + 1 < length T" for i j
  proof -
    have i: "i = length T - 1" using that(1,4) by simp
    have ne: "T \<noteq> []" using that(1) by auto
    have "T ! j = T ! i"
      using that(3) by (simp add: r0_def get_rank_eq)
    then have "T ! j = last T"
      using i ne by (simp add: last_conv_nth)
    then have "last T \<in> set (butlast T)" using butlast_mem [OF that(5)] by simp
    then have "\<forall>c \<in> set T. CHR ''a'' \<le> c" using assms by (simp add: sa_input_ok_def)
    then have "CHR ''a'' \<le> T ! (j + 1)" using that(5) by simp
    then show ?thesis unfolding r0_def by (rule get_rank_sentinel)
  qed
  have keyi: "key a = (r0 (index a), if index a + 1 < length T then r0 (index a + 1) else - 1)
      \<and> index a < length T" if "a \<in> set (initial_suffixes T)" for a
    using that by (auto simp: initial_suffixes_def key_def r0_def)
  have "key a \<le> key b \<longleftrightarrow> pre T (1 + 1) (index a) \<le> pre T (1 + 1) (index b)"
    if "a \<in> set (sort_suffixes (initial_suffixes T))" "b \<in> set (sort_suffixes (initial_suffixes T))"
    for a b
  proof -
    have ab: "a \<in> set (initial_suffixes T)" "b \<in> set (initial_suffixes T)"
      using that by (simp_all add: sort_suffixes_key)
    have ia: "index a < length T" and ib: "index b < length T"
      using keyi ab by simp_all
    have one: "0 < (1 :: nat)" by simp
    show ?thesis
      using doubling_keys [of T r0 1, OF r0 sentinel one ia ib] keyi [OF ab(1)] keyi [OF ab(2)]
      by simp
  qed
  moreover have "sorted (map key (sort_suffixes (initial_suffixes T)))"
    by (simp add: sort_suffixes_key sorted_sort_key)
  ultimately have "ord_inv T (1 + 1) (sort_suffixes (initial_suffixes T))"
    by (simp add: ord_inv_def)
  then show ?thesis by (simp only: one_add_one)
qed

lemma sa_loop_spec:
  assumes "perm_inv T S" "length ind = length T" "0 < h"
  shows "\<exists>S' ind' h'. sa_loop T (2 * h) (S, ind) = Some (S', ind') \<and> perm_inv T S'
           \<and> length T \<le> h' \<and> (ord_inv T h S \<longrightarrow> ord_inv T h' S')"
  using assms
proof (induction "length T - h" arbitrary: h S ind rule: less_induct)
  case less
  show ?case
  proof (cases "2 * h < 2 * length T")
    case False
    then have "sa_loop T (2 * h) (S, ind) = Some (S, ind)"
      by (subst sa_loop.simps) simp
    moreover have "length T \<le> h" using False by simp
    ultimately show ?thesis using less.prems(1) by blast
  next
    case True
    then have n: "0 < length T" by auto
    obtain S1 ind1 where r: "sa_round T (2 * h) (S, ind) = (S1, ind1)"
      by (cases "sa_round T (2 * h) (S, ind)") auto
    have R: "perm_inv T S1 \<and> length ind1 = length T
       \<and> (0 < (2 * h) div 2 \<longrightarrow> ord_inv T ((2 * h) div 2) S \<longrightarrow> ord_inv T ((2 * h) div 2 + (2 * h) div 2) S1)"
      using less.prems(1,2) n r by (rule sa_round_spec)
    then have R': "perm_inv T S1" "length ind1 = length T" "ord_inv T h S \<longrightarrow> ord_inv T (2 * h) S1"
      using less.prems(3) by (simp_all add: mult_2)
    have m: "length T - 2 * h < length T - h" using True less.prems(3) by simp
    have h2: "0 < 2 * h" using less.prems(3) by simp
    from less.hyps [OF m R'(1,2) h2]
    obtain S' ind' h' where L: "sa_loop T (2 * (2 * h)) (S1, ind1) = Some (S', ind')"
      "perm_inv T S'" "length T \<le> h'" "ord_inv T (2 * h) S1 \<longrightarrow> ord_inv T h' S'"
      by blast
    have "sa_loop T (2 * h) (S, ind) = Some (S', ind')"
      using True L(1) r by (subst sa_loop.simps) (simp add: mult.commute)
    then show ?thesis using L(2,3,4) R'(3) by blast
  qed
qed

lemma drop_neq: "i < j \<Longrightarrow> i < length T \<Longrightarrow> drop i T \<noteq> drop j T"
  by (metis diff_less_mono2 length_drop less_irrefl_nat)

lemma ord_inv_final:
  assumes "perm_inv T S" "ord_inv T h S" "length T \<le> h" "p < q" "q < length T"
  shows "drop (index (S ! p)) T < drop (index (S ! q)) T"
proof -
  have len: "length S = length T" using assms(1) by (rule perm_inv_length)
  have "key (S ! p) \<le> key (S ! q)"
    using assms(2,4,5) len by (intro sorted_keys_nth) (simp_all add: ord_inv_def)
  then have "pre T h (index (S ! p)) \<le> pre T h (index (S ! q))"
    using assms(2,4,5) len by (simp add: ord_inv_def)
  then have le: "drop (index (S ! p)) T \<le> drop (index (S ! q)) T"
    using assms(3) by (simp add: pre_whole)
  have "index (S ! p) \<noteq> index (S ! q)"
    using perm_inv_distinct [OF assms(1)] assms(4,5) len
    by (simp add: distinct_conv_nth)
  moreover have "index (S ! p) < length T" "index (S ! q) < length T"
    using perm_inv_bound [OF assms(1)] assms(4,5) len by simp_all
  ultimately have "drop (index (S ! p)) T \<noteq> drop (index (S ! q)) T"
    using drop_neq [of "index (S ! p)" "index (S ! q)" T] drop_neq [of "index (S ! q)" "index (S ! p)" T]
    by (metis linorder_neqE_nat)
  then show ?thesis using le by simp
qed

lemma suffix_array_spec:
  "\<exists>S. suffix_array T = Some (map index S) \<and> perm_inv T S
     \<and> (sa_input_ok T \<longrightarrow> (\<exists>h. length T \<le> h \<and> ord_inv T h S))"
proof -
  let ?S0 = "sort_suffixes (initial_suffixes T)"
  have two: "0 < (2 :: nat)" by simp
  have len: "length (replicate (length T) (0 :: nat)) = length T" by simp
  from sa_loop_spec [OF perm_inv_initial [of T] len two]
  obtain S' ind' h' where L: "sa_loop T (2 * 2) (?S0, replicate (length T) 0) = Some (S', ind')"
    "perm_inv T S'" "length T \<le> h'" "ord_inv T 2 ?S0 \<longrightarrow> ord_inv T h' S'"
    by blast
  have "suffix_array T = Some (map index S')"
    using L(1) by (simp add: suffix_array_def)
  moreover have "sa_input_ok T \<longrightarrow> (\<exists>h. length T \<le> h \<and> ord_inv T h S')"
    using L(3,4) ord_inv_initial [of T] by blast
  ultimately show ?thesis using L(2) by blast
qed

lemma sentinel_input_ok: "\<forall>c \<in> set (butlast T). last T < c \<Longrightarrow> sa_input_ok T"
  by (auto simp: sa_input_ok_def)

lemma sentinel_first:
  fixes T :: string
  assumes ne: "T \<noteq> []" and perm: "mset sa = mset [0..<length T]"
    and ord: "\<forall>i j. i < j \<longrightarrow> j < length T \<longrightarrow> drop (sa ! i) T < drop (sa ! j) T"
    and sent: "\<forall>c \<in> set (butlast T). last T < c"
  shows "sa ! 0 = length T - 1"
proof (rule ccontr)
  assume neq: "sa ! 0 \<noteq> length T - 1"
  have len: "length sa = length T"
    using perm by (metis length_upt mset_eq_length minus_nat.diff_0)
  have set: "set sa = {..<length T}"
    using perm by (metis atLeast_upt mset_eq_setD)
  have n: "0 < length T" using ne by simp
  have "length T - 1 \<in> set sa" using set n by simp
  then obtain p where p: "p < length T" "sa ! p = length T - 1"
    using len by (metis in_set_conv_nth)
  have p0: "0 < p" using p(2) neq by (cases p) auto
  have lt: "drop (sa ! 0) T < drop (length T - 1) T"
    using ord p0 p by metis
  have "sa ! 0 \<in> set sa" using len n by simp
  then have s0: "sa ! 0 < length T - 1" using set neq by auto
  then have "sa ! 0 + 1 < length T" by simp
  then have "T ! (sa ! 0) \<in> set (butlast T)" by (rule butlast_mem)
  then have c: "last T < T ! (sa ! 0)" using sent by simp
  have d0: "drop (sa ! 0) T = T ! (sa ! 0) # drop (Suc (sa ! 0)) T"
    using s0 by (simp add: Cons_nth_drop_Suc)
  have dl: "drop (length T - 1) T = [last T]"
    using ne by (metis append_butlast_last_id append_eq_conv_conj length_butlast)
  have "drop (length T - 1) T < drop (sa ! 0) T"
    unfolding d0 dl using c by simp
  then show False using lt by simp
qed

lemma sort_perm_upt: "mset sa = mset [0..<n] \<Longrightarrow> sort sa = [0..<n]"
  by (rule properties_for_sort) simp_all

subsection \<open>Where the suffix array is sorted\<close>

text \<open>
  For every non-empty text \<open>suffix_array\<close> terminates and returns a permutation of
  \<open>[0, n)\<close>: sorting it gives \<open>[0, 1, \<dots>, n - 1]\<close>. The order of the suffixes is right
  on the texts \<open>sa_input_ok\<close> describes, among them every text that ends in a sentinel
  occurring nowhere else, which then sorts first if it is below the other characters.
\<close>

lemma suffix_array_sorted:
  assumes "T \<noteq> []"
  shows "\<exists>sa. suffix_array T = Some sa \<and> sort sa = [0..<length T]
     \<and> (sa_input_ok T \<longrightarrow> (\<forall>i j. i < j \<longrightarrow> j < length T \<longrightarrow> drop (sa ! i) T < drop (sa ! j) T))
     \<and> ((\<forall>c \<in> set (butlast T). last T < c) \<longrightarrow> sa ! 0 = length T - 1)"
proof -
  obtain S where S: "suffix_array T = Some (map index S)" "perm_inv T S"
    "sa_input_ok T \<longrightarrow> (\<exists>h. length T \<le> h \<and> ord_inv T h S)"
    using suffix_array_spec [of T] by blast
  define sa where "sa = map index S"
  have perm: "mset sa = mset [0..<length T]" using S(2) by (simp add: perm_inv_def sa_def)
  have len: "length S = length T" using S(2) by (rule perm_inv_length)
  have srt: "sort sa = [0..<length T]"
    using perm by (rule sort_perm_upt)
  have ord: "\<forall>i j. i < j \<longrightarrow> j < length T \<longrightarrow> drop (sa ! i) T < drop (sa ! j) T"
    if ok: "sa_input_ok T"
  proof (intro allI impI)
    fix i j assume ij: "i < j" "j < length T"
    obtain h where h: "length T \<le> h" "ord_inv T h S" using S(3) ok by blast
    have "drop (index (S ! i)) T < drop (index (S ! j)) T"
      using S(2) h(2,1) ij by (rule ord_inv_final)
    then show "drop (sa ! i) T < drop (sa ! j) T"
      using ij len by (simp add: sa_def)
  qed
  have first: "sa ! 0 = length T - 1" if s: "\<forall>c \<in> set (butlast T). last T < c"
    using assms perm ord [OF sentinel_input_ok [OF s]] s by (rule sentinel_first)
  have "suffix_array T = Some sa \<and> sort sa = [0..<length T]
     \<and> (sa_input_ok T \<longrightarrow> (\<forall>i j. i < j \<longrightarrow> j < length T \<longrightarrow> drop (sa ! i) T < drop (sa ! j) T))
     \<and> ((\<forall>c \<in> set (butlast T). last T < c) \<longrightarrow> sa ! 0 = length T - 1)"
  proof (intro conjI impI)
    show "suffix_array T = Some sa" using S(1) by (simp add: sa_def)
    show "sort sa = [0..<length T]" by (rule srt)
    show "\<forall>i j. i < j \<longrightarrow> j < length T \<longrightarrow> drop (sa ! i) T < drop (sa ! j) T"
      if "sa_input_ok T" using that by (rule ord)
    show "sa ! 0 = length T - 1" if "\<forall>c \<in> set (butlast T). last T < c"
      using that by (rule first)
  qed
  then show ?thesis by (rule exI)
qed

section \<open>The claim about the suffix array\<close>

text \<open>
  Claim C2 fails on the code. The function is documented to return the suffix array of
  the text, but \<open>get_rank\<close> subtracts the code of \<open>a\<close>, so an upper-case letter has a
  rank below the end marker \<open>-1\<close> of the first ranking: for the text \<open>AA\<close> the function
  returns \<open>[0, 1]\<close>, which is a permutation, but the suffix \<open>AA\<close> at position 0 is not
  smaller than the suffix \<open>A\<close> at position 1. The suffix array of \<open>AA\<close> is \<open>[1, 0]\<close>.
\<close>

theorem suffix_array_unsorted:
  "''AA'' \<noteq> [] \<and> suffix_array ''AA'' = Some [0, 1]
   \<and> sort [0, 1] = [0..<length ''AA'']
   \<and> \<not> drop ([0, 1] ! 0) ''AA'' < drop ([0, 1] ! 1) ''AA''
   \<and> drop 1 ''AA'' < drop 0 ''AA''"
proof -
  have "suffix_array ''AA'' = Some [0, 1]" by code_simp
  moreover have "sort [0, 1 :: nat] = [0..<length ''AA'']" by code_simp
  ultimately show ?thesis by simp
qed

end
